theory Spec2Isabelle
  imports Main "HOL-Library.Word"
begin

unbundle bit_operations_syntax

section \<open>The stepper motor driver of pico-nutator (src/stepper-motor.c)\<close>

text \<open>
  The target is the RP2040 (32-bit ARM, GCC): \<open>unsigned int\<close>, \<open>int\<close> and \<open>size_t\<close> are
  32 bits wide, \<open>uint64_t\<close> and \<open>int64_t\<close> 64 bits. Unsigned arithmetic wraps; a
  conversion to a narrower or signed type keeps the low bits (\<open>ucast\<close>), a conversion of a
  signed value to a wider type extends the sign (\<open>scast\<close>). Signed comparisons are
  \<open><s\<close>, unsigned ones \<open><\<close>.
\<close>

type_synonym u32 = "32 word"
type_synonym u64 = "64 word"

subsection \<open>Data\<close>

datatype stepper_mode = STEPPER_MODE_WAVE | STEPPER_MODE_DUAL_PHASE | STEPPER_MODE_HALF_STEP

text \<open>One entry of the \<open>pins\<close> array; \<open>num_pins\<close> is the length of the list.\<close>

record pin_entry =
  pin :: u32
  is_pwm :: bool

text \<open>
  \<open>struct stepper\<close>, field by field. \<open>num_pins\<close> and \<open>pins\<close> are one list; the field
  \<open>mask\<close> is \<open>mask_main\<close> here, the name \<open>mask\<close> being taken by the library.
\<close>

record stepper =
  steps_per_rev :: u32
  max_rpm :: u32
  mode :: stepper_mode
  mask_main :: u32
  half_mask :: u32
  target_rpm :: u32
  accel_rpm_per_sec :: u32
  enable_pin :: u32
  pins :: "pin_entry list"
  last_step :: u64
  us_per_step_target :: u64
  us_per_step :: u64
  us_accel :: u64
  max_us_per_step :: u64
  last_accel_step :: u64
  step_count :: u64

text \<open>
  The hardware the driver writes to is seen through the calls it makes to the SDK, in
  the order it makes them.
\<close>

datatype gpio_function = GPIO_FUNC_PWM | GPIO_FUNC_SIO

datatype gpio_call =
    Gpio_init u32
  | Gpio_set_dir u32 bool
  | Gpio_put u32 bool
  | Gpio_set_function u32 gpio_function
  | Gpio_put_masked u32 u32

text \<open>
  A motor together with the SDK calls issued on its behalf since it was created, oldest
  first. The clock \<open>time_us_64()\<close> is an input: every read of it is a parameter \<open>now\<close>.
\<close>

record machine = stepper +
  gpio :: "gpio_call list"

datatype fault = Division_by_zero

definition US_PER_SEC :: u64 where
  "US_PER_SEC = 1000000"

definition US_PER_MIN :: u64 where
  "US_PER_MIN = 60 * US_PER_SEC"

definition num_pins :: "machine \<Rightarrow> nat" where
  "num_pins s = length (pins s)"

text \<open>
  Modelled from the spec: the macros \<open>MIN\<close> and \<open>MAX\<close> come from the SDK's headers, which
  are not part of the repository. They are the usual two-argument minimum and maximum,
  compared at the common type of the operands: \<open>unsigned int\<close> in \<open>stepper_set_rpm\<close>,
  \<open>int64_t\<close> in \<open>stepper_update\<close> (a signed comparison).
\<close>

definition MIN_u32 :: "u32 \<Rightarrow> u32 \<Rightarrow> u32" where
  "MIN_u32 a b = (if a < b then a else b)"

definition MIN_s64 :: "u64 \<Rightarrow> u64 \<Rightarrow> u64" where
  "MIN_s64 a b = (if a <s b then a else b)"

definition MAX_s64 :: "u64 \<Rightarrow> u64 \<Rightarrow> u64" where
  "MAX_s64 a b = (if b <s a then a else b)"

subsection \<open>Operations\<close>

text \<open>
  \<open>rpm_to_step_us\<close>: the product is formed in 64 bits, so it cannot wrap. A zero divisor
  is undefined behaviour in C; the model returns the fault.
\<close>

definition rpm_to_step_us :: "machine \<Rightarrow> u32 \<Rightarrow> fault + u64" where
  "rpm_to_step_us s rpm =
     (let d = (ucast rpm :: u64) * ucast (steps_per_rev s)
      in if d = 0 then Inl Division_by_zero else Inr (US_PER_MIN div d))"

text \<open>
  The loop of \<open>update\<close> over the pins, from index \<open>i\<close> on: \<open>bits\<close> is
  \<open>s->mask | s->half_mask\<close>, the accumulator holds the local \<open>mask\<close>, the local
  \<open>value\<close> and the calls made so far. A shift by 32 or more gives 0 on the target (and is undefined in
  C); \<open>push_bit\<close> and \<open>bit\<close> do the same.
\<close>

fun update_pins :: "u32 \<Rightarrow> nat \<Rightarrow> pin_entry list \<Rightarrow> u32 \<times> u32 \<times> gpio_call list
    \<Rightarrow> u32 \<times> u32 \<times> gpio_call list" where
  "update_pins bits i [] acc = acc"
| "update_pins bits i (p # ps) (m, v, cs) =
     update_pins bits (Suc i) ps
       (let m' = m OR push_bit (unat (pin p)) 1
        in if bit bits i then
             (if is_pwm p then (m', v, cs @ [Gpio_set_function (pin p) GPIO_FUNC_PWM])
              else (m', v OR push_bit (unat (pin p)) 1, cs))
           else if is_pwm p then (m', v, cs @ [Gpio_set_function (pin p) GPIO_FUNC_SIO])
           else (m', v, cs))"

definition update :: "machine \<Rightarrow> machine" where
  "update s =
     (case update_pins (mask_main s OR half_mask s) 0 (pins s) (0, 0, []) of
        (m, v, cs) \<Rightarrow> s\<lparr>gpio := gpio s @ cs @ [Gpio_put_masked m v]\<rparr>)"

text \<open>
  \<open>step_mask\<close>: \<open>1 << num_pins\<close> is \<open>push_bit n 1\<close>, and \<open>(1 << num_pins) - 1\<close> wraps to
  all ones when the shift gives 0.
\<close>

definition step_mask :: "u32 \<Rightarrow> bool \<Rightarrow> nat \<Rightarrow> u32" where
  "step_mask m forward n =
     (let m1 = (if forward then
                  drop_bit 1 (if m AND 1 \<noteq> 0 then m OR push_bit n 1 else m)
                else
                  (let m2 = push_bit 1 m
                   in if m2 AND push_bit n 1 \<noteq> 0 then m2 OR 1 else m2))
      in m1 AND (push_bit n 1 - 1))"

definition stepper_hold :: "machine \<Rightarrow> machine" where
  "stepper_hold s =
     update (case mode s of
        STEPPER_MODE_WAVE \<Rightarrow> s\<lparr>mask_main := 1, half_mask := 0\<rparr>
      | STEPPER_MODE_DUAL_PHASE \<Rightarrow> s\<lparr>mask_main := 3, half_mask := 0\<rparr>
      | STEPPER_MODE_HALF_STEP \<Rightarrow> s\<lparr>mask_main := 1, half_mask := 1\<rparr>)"

definition stepper_brake :: "machine \<Rightarrow> machine" where
  "stepper_brake s = update (s\<lparr>mask_main := 0, half_mask := 0\<rparr>)"

definition step :: "machine \<Rightarrow> bool \<Rightarrow> machine" where
  "step s forward =
     (if mask_main s = 0 then stepper_hold s
      else
        let s1 = (if mode s \<noteq> STEPPER_MODE_HALF_STEP \<or> step_count s AND 1 \<noteq> 0
                  then s\<lparr>mask_main := step_mask (mask_main s) forward (num_pins s)\<rparr>
                  else s\<lparr>half_mask := step_mask (half_mask s) forward (num_pins s)\<rparr>)
        in update (s1\<lparr>step_count := step_count s1 + 1\<rparr>))"

text \<open>
  \<open>stepper_create\<close>: \<open>calloc\<close> zeroes every field. \<open>enable_pin\<close> is an \<open>int\<close>; it is kept
  as its 32 bits and read signed where the code compares it with 0.
\<close>

definition stepper_create :: "u32 \<Rightarrow> u32 \<Rightarrow> stepper_mode \<Rightarrow> u32 \<Rightarrow> machine" where
  "stepper_create spr mrpm md en =
     \<lparr>steps_per_rev = (if md = STEPPER_MODE_HALF_STEP then spr * 2 else spr),
      max_rpm = mrpm, mode = md, mask_main = 0, half_mask = 0, target_rpm = 0,
      accel_rpm_per_sec = 0, enable_pin = en, pins = [], last_step = 0,
      us_per_step_target = 0, us_per_step = 0, us_accel = 0, max_us_per_step = 0,
      last_accel_step = 0, step_count = 0,
      gpio = (if 0 \<le>s en then [Gpio_init en, Gpio_set_dir en True, Gpio_put en False]
              else [])\<rparr>"

definition stepper_add_pin :: "machine \<Rightarrow> u32 \<Rightarrow> bool \<Rightarrow> machine" where
  "stepper_add_pin s p pwm =
     s\<lparr>pins := pins s @ [\<lparr>pin = p, is_pwm = pwm\<rparr>],
       gpio := gpio s @ [Gpio_init p, Gpio_set_dir p True, Gpio_put p False]\<rparr>"

text \<open>
  \<open>stepper_set_accel\<close>: \<open>rpm_per_sec * 60\<close> is an \<open>unsigned int\<close> product and wraps at 32
  bits. The first quotient is stored before the second division is evaluated.
\<close>

definition stepper_set_accel :: "machine \<Rightarrow> u32 \<Rightarrow> u32 \<Rightarrow> fault + machine" where
  "stepper_set_accel s rpm_per_sec min_rpm =
     (if rpm_per_sec = 0 then Inr (s\<lparr>us_accel := 0\<rparr>)
      else case rpm_to_step_us s (rpm_per_sec * 60) of
             Inl e \<Rightarrow> Inl e
           | Inr a \<Rightarrow>
               (let s1 = s\<lparr>us_accel := a\<rparr>
                in case rpm_to_step_us s1 min_rpm of
                     Inl e \<Rightarrow> Inl e
                   | Inr b \<Rightarrow> Inr (s1\<lparr>max_us_per_step := b\<rparr>)))"

definition stepper_step :: "u64 \<Rightarrow> machine \<Rightarrow> bool \<Rightarrow> machine" where
  "stepper_step now s forward =
     (let s1 = step s forward;
          s2 = s1\<lparr>last_step := now\<rparr>
      in s2\<lparr>last_accel_step := last_step s2\<rparr>)"

text \<open>
  \<open>stepper_update\<close>, first half (the \<open>if (s->us_accel)\<close> statement). \<open>num_steps\<close> is an
  \<open>int\<close>: the 64-bit quotient is cut to its low 32 bits. \<open>target\<close> is an \<open>int64_t\<close>; the
  two comparisons of \<open>us_per_step\<close> with it are made in \<open>uint64_t\<close>, the ones inside
  \<open>MIN\<close> and \<open>MAX\<close> in \<open>int64_t\<close>. In \<open>us_accel * num_steps\<close> the \<open>int\<close> is converted to
  \<open>uint64_t\<close>.
\<close>

definition stepper_update_ramp :: "u64 \<Rightarrow> machine \<Rightarrow> machine" where
  "stepper_update_ramp now s =
     (if us_accel s \<noteq> 0 then
        if us_per_step_target s = 0 \<and>
           (us_per_step s = max_us_per_step s \<or> us_per_step s = 0)
        then s\<lparr>us_per_step := 0\<rparr>
        else if us_per_step_target s \<noteq> 0 \<and> us_per_step s = 0
        then s\<lparr>us_per_step := max_us_per_step s\<rparr>
        else if last_accel_step s \<le> now then
          let num_steps = (ucast ((now - last_accel_step s) div us_accel s) :: u32);
              target = (if us_per_step_target s \<noteq> 0 then us_per_step_target s
                        else max_us_per_step s);
              s1 = (if us_per_step s < target
                    then s\<lparr>us_per_step := MIN_s64 (us_per_step s + scast num_steps) target\<rparr>
                    else if target < us_per_step s
                    then s\<lparr>us_per_step := MAX_s64 (us_per_step s - scast num_steps) target\<rparr>
                    else s)
          in s1\<lparr>last_accel_step := last_accel_step s1 + us_accel s1 * scast num_steps\<rparr>
        else s
      else s\<lparr>us_per_step := us_per_step_target s\<rparr>)"

text \<open>
  \<open>stepper_update\<close>, second half (from \<open>if (!s->us_per_step)\<close> on), and the whole
  function: the returned \<open>bool\<close> and the new state.
\<close>

definition stepper_update_clock :: "u64 \<Rightarrow> machine \<Rightarrow> bool \<times> machine" where
  "stepper_update_clock now s =
     (if us_per_step s = 0 then (False, s)
      else if last_step s \<le> now then
        let num_steps = (ucast ((now - last_step s) div us_per_step s) :: u32);
            s1 = (if num_steps \<noteq> 0
                  then (let s2 = step s True
                        in s2\<lparr>last_step := last_step s2 + us_per_step s2\<rparr>)
                  else s)
        in (1 <s num_steps, s1)
      else (False, s))"

definition stepper_update :: "u64 \<Rightarrow> machine \<Rightarrow> bool \<times> machine" where
  "stepper_update now s = stepper_update_clock now (stepper_update_ramp now s)"

text \<open>
  \<open>stepper_set_rpm\<close> reads the clock twice, once for each anchor: \<open>now1\<close> and \<open>now2\<close>.
\<close>

definition stepper_set_rpm :: "u64 \<Rightarrow> u64 \<Rightarrow> machine \<Rightarrow> u32 \<Rightarrow> fault + machine" where
  "stepper_set_rpm now1 now2 s rpm0 =
     (let rpm = MIN_u32 rpm0 (max_rpm s)
      in if rpm = target_rpm s then Inr s
         else
           let s1 = s\<lparr>target_rpm := rpm, last_step := now1, last_accel_step := now2\<rparr>
           in if rpm \<noteq> 0 then
                (case rpm_to_step_us s1 rpm of
                   Inl e \<Rightarrow> Inl e
                 | Inr t \<Rightarrow> Inr (s1\<lparr>us_per_step_target := t\<rparr>))
              else Inr (s1\<lparr>us_per_step_target := 0\<rparr>))"

definition stepper_get_rpm :: "machine \<Rightarrow> u32" where
  "stepper_get_rpm s = target_rpm s"

definition stepper_step_count :: "machine \<Rightarrow> u64" where
  "stepper_step_count s = step_count s"

subsection \<open>Observations and the states used as concrete inputs\<close>

text \<open>
  Every call of \<open>update\<close> ends in exactly one \<open>gpio_put_masked\<close>, and nothing else in
  the driver makes that call: their number counts the patterns written to the windings.
\<close>

fun is_put_masked :: "gpio_call \<Rightarrow> bool" where
  "is_put_masked (Gpio_put_masked m v) = True"
| "is_put_masked c = False"

definition pattern_writes :: "machine \<Rightarrow> nat" where
  "pattern_writes s = length (filter is_put_masked (gpio s))"

text \<open>
  The states a motor is in while it is held or stepping: after \<open>stepper_hold\<close>, and
  after any further direct steps, polls and changes of speed or acceleration, with no
  \<open>stepper_brake\<close> (and with the windings registered beforehand).
\<close>

inductive held_or_stepping :: "machine \<Rightarrow> bool" where
  hold: "held_or_stepping (stepper_hold s)"
| direct: "held_or_stepping s \<Longrightarrow> held_or_stepping (stepper_step now s forward)"
| poll: "held_or_stepping s \<Longrightarrow> held_or_stepping (snd (stepper_update now s))"
| speed: "held_or_stepping s \<Longrightarrow> stepper_set_rpm now1 now2 s rpm = Inr s' \<Longrightarrow>
          held_or_stepping s'"
| accel: "held_or_stepping s \<Longrightarrow> stepper_set_accel s rpm_per_sec min_rpm = Inr s' \<Longrightarrow>
          held_or_stepping s'"

text \<open>
  The main mask has a bit inside the ring of the registered windings: what the rotation
  of \<open>step_mask\<close> keeps.
\<close>

definition ring_bit :: "machine \<Rightarrow> bool" where
  "ring_bit s \<longleftrightarrow> (\<exists>k<num_pins s. bit (mask_main s) k)"

text \<open>
  The motor as \<open>main\<close> builds it: 200 steps per revolution in half-step mode (400
  effective), at most 60 rpm, enable pin 8, four PWM windings on pins 0, 4, 2, 6.
\<close>

definition main_motor :: machine where
  "main_motor =
     stepper_add_pin (stepper_add_pin (stepper_add_pin (stepper_add_pin
       (stepper_create 200 60 STEPPER_MODE_HALF_STEP 8) 0 True) 4 True) 2 True) 6 True"

text \<open>
  The same motor with the intervals \<open>main\<close> configures: 41 us of ramp unit
  (\<open>stepper_set_accel\<close> with 60 and 5), a floor interval of 30000 us (5 rpm), and the
  target of 60 rpm, 2500 us per step.
\<close>

definition ramped_motor :: machine where
  "ramped_motor =
     main_motor\<lparr>target_rpm := 60, us_per_step_target := 2500, us_accel := 41,
                max_us_per_step := 30000\<rparr>"

text \<open>
  A motor running at its target speed: the target interval is nonzero, and ramping is
  either disabled or has arrived. Every poll then paces with the target interval.
\<close>

definition steady :: "machine \<Rightarrow> bool" where
  "steady s \<longleftrightarrow>
     us_per_step_target s \<noteq> 0 \<and> (us_accel s = 0 \<or> us_per_step s = us_per_step_target s)"

text \<open>
  The motor of \<open>main\<close>, held, without ramping, cruising at 60 rpm since the clock
  reading 1000.
\<close>

definition cruising_motor :: machine where
  "cruising_motor =
     (stepper_hold main_motor)\<lparr>target_rpm := 60, last_step := 1000,
        us_per_step_target := 2500, us_per_step := 2500, last_accel_step := 1000\<rparr>"

text \<open>
  The ramped motor just launched: at the floor interval, with both anchors at the clock
  reading 1000.
\<close>

definition ramping_motor :: machine where
  "ramping_motor = ramped_motor\<lparr>last_step := 1000, us_per_step := 30000, last_accel_step := 1000\<rparr>"

section \<open>Facts about the operations\<close>

lemma update_fields [simp]:
  "steps_per_rev (update s) = steps_per_rev s"
  "max_rpm (update s) = max_rpm s"
  "mode (update s) = mode s"
  "mask_main (update s) = mask_main s"
  "half_mask (update s) = half_mask s"
  "target_rpm (update s) = target_rpm s"
  "accel_rpm_per_sec (update s) = accel_rpm_per_sec s"
  "enable_pin (update s) = enable_pin s"
  "pins (update s) = pins s"
  "last_step (update s) = last_step s"
  "us_per_step_target (update s) = us_per_step_target s"
  "us_per_step (update s) = us_per_step s"
  "us_accel (update s) = us_accel s"
  "max_us_per_step (update s) = max_us_per_step s"
  "last_accel_step (update s) = last_accel_step s"
  "step_count (update s) = step_count s"
  by (simp_all add: update_def split: prod.splits)

lemma hold_timing [simp]:
  "pins (stepper_hold s) = pins s"
  "mode (stepper_hold s) = mode s"
  "last_step (stepper_hold s) = last_step s"
  "us_per_step_target (stepper_hold s) = us_per_step_target s"
  "us_per_step (stepper_hold s) = us_per_step s"
  "us_accel (stepper_hold s) = us_accel s"
  "max_us_per_step (stepper_hold s) = max_us_per_step s"
  "last_accel_step (stepper_hold s) = last_accel_step s"
  by (simp_all add: stepper_hold_def split: stepper_mode.splits)

lemma step_timing [simp]:
  "pins (step s f) = pins s"
  "mode (step s f) = mode s"
  "last_step (step s f) = last_step s"
  "us_per_step_target (step s f) = us_per_step_target s"
  "us_per_step (step s f) = us_per_step s"
  "us_accel (step s f) = us_accel s"
  "max_us_per_step (step s f) = max_us_per_step s"
  "last_accel_step (step s f) = last_accel_step s"
  by (simp_all add: step_def Let_def)

lemma clock_keeps_ramp [simp]:
  "us_per_step (snd (stepper_update_clock now s)) = us_per_step s"
  "last_accel_step (snd (stepper_update_clock now s)) = last_accel_step s"
  "us_accel (snd (stepper_update_clock now s)) = us_accel s"
  "us_per_step_target (snd (stepper_update_clock now s)) = us_per_step_target s"
  "max_us_per_step (snd (stepper_update_clock now s)) = max_us_per_step s"
  by (simp_all add: stepper_update_clock_def Let_def)

lemmas motor_defs =
  main_motor_def ramped_motor_def stepper_create_def stepper_add_pin_def

text \<open>The ramped motor is what the two configuration calls of \<open>main\<close> produce.\<close>

lemma ramped_motor_by_calls:
  "stepper_set_accel main_motor 60 5 =
     Inr (main_motor\<lparr>us_accel := 41, max_us_per_step := 30000\<rparr>) \<and>
   stepper_set_rpm 0 0 (main_motor\<lparr>us_accel := 41, max_us_per_step := 30000\<rparr>) 60 =
     Inr ramped_motor"
  by (simp add: motor_defs stepper_set_accel_def stepper_set_rpm_def rpm_to_step_us_def
      MIN_u32_def US_PER_MIN_def US_PER_SEC_def)

subsection \<open>Launching from standstill\<close>

text \<open>
  Claim C4. In a poll with ramping enabled (\<open>us_accel\<close> nonzero), a nonzero target
  interval and a current interval of zero, the current interval is set to the floor
  interval \<open>max_us_per_step\<close>; the step clock that runs afterwards in the same poll
  leaves it there.
\<close>

theorem launch_seeds_floor_interval:
  assumes "us_accel s \<noteq> 0" and "us_per_step_target s \<noteq> 0" and "us_per_step s = 0"
  shows "us_per_step (stepper_update_ramp now s) = max_us_per_step s \<and>
         us_per_step (snd (stepper_update now s)) = max_us_per_step s"
  using assms by (simp add: stepper_update_def stepper_update_ramp_def)

theorem launch_seeds_floor_interval_witness:
  "us_accel ramped_motor \<noteq> 0 \<and> us_per_step_target ramped_motor \<noteq> 0 \<and>
   us_per_step ramped_motor = 0 \<and>
   us_per_step (stepper_update_ramp 1000 ramped_motor) = 30000 \<and>
   us_per_step (snd (stepper_update 1000 ramped_motor)) = 30000"
proof -
  have h: "us_accel ramped_motor \<noteq> 0" "us_per_step_target ramped_motor \<noteq> 0"
    "us_per_step ramped_motor = 0"
    by (simp_all add: motor_defs)
  have m: "max_us_per_step ramped_motor = 30000"
    by (simp add: motor_defs)
  show ?thesis
    using h launch_seeds_floor_interval [OF h, of 1000] by (simp add: m)
qed

subsection \<open>Brake and hold\<close>

text \<open>
  With both masks zero no bit of the pattern is set, so the loop of \<open>update\<close> switches
  every PWM winding back to plain digital drive, sets no bit of \<open>value\<close>, and collects
  the pin of every winding in the write mask.
\<close>

lemma update_pins_braked:
  "update_pins 0 i ps (m, v, cs) =
     (fold (\<lambda>p m. m OR push_bit (unat (pin p)) 1) ps m, v,
      cs @ map (\<lambda>p. Gpio_set_function (pin p) GPIO_FUNC_SIO) (filter is_pwm ps))"
  by (induction ps arbitrary: i m cs) simp_all

lemma brake_trace:
  "gpio (stepper_brake s) =
     gpio s @ map (\<lambda>p. Gpio_set_function (pin p) GPIO_FUNC_SIO) (filter is_pwm (pins s)) @
     [Gpio_put_masked (fold (\<lambda>p m. m OR push_bit (unat (pin p)) 1) (pins s) 0) 0]"
  by (simp add: stepper_brake_def update_def update_pins_braked)

text \<open>
  Claim C7. From any state, \<open>stepper_brake\<close> leaves both masks zero and writes a zero
  output to every registered winding: the calls it adds are one switch to plain digital
  drive (\<open>GPIO_FUNC_SIO\<close>) for each PWM winding, in pin order, followed by one
  \<open>gpio_put_masked\<close> whose mask is the union of the pin bits of all windings and whose
  value is 0. A following \<open>stepper_hold\<close> sets the pattern of the mode: masks 1 and 0
  for wave drive, 3 and 0 for dual phase, 1 and 1 (the same single bit) for half step.
\<close>

theorem brake_clears_hold_restores:
  "mask_main (stepper_brake s) = 0 \<and> half_mask (stepper_brake s) = 0 \<and>
   gpio (stepper_brake s) =
     gpio s @ map (\<lambda>p. Gpio_set_function (pin p) GPIO_FUNC_SIO) (filter is_pwm (pins s)) @
     [Gpio_put_masked (fold (\<lambda>p m. m OR push_bit (unat (pin p)) 1) (pins s) 0) 0] \<and>
   (mask_main (stepper_hold (stepper_brake s)), half_mask (stepper_hold (stepper_brake s))) =
     (case mode s of
        STEPPER_MODE_WAVE \<Rightarrow> (1, 0)
      | STEPPER_MODE_DUAL_PHASE \<Rightarrow> (3, 0)
      | STEPPER_MODE_HALF_STEP \<Rightarrow> (1, 1))"
proof -
  have "mask_main (stepper_brake s) = 0" "half_mask (stepper_brake s) = 0"
       "mode (stepper_brake s) = mode s"
    by (simp_all add: stepper_brake_def)
  moreover have "(mask_main (stepper_hold t), half_mask (stepper_hold t)) =
     (case mode t of
        STEPPER_MODE_WAVE \<Rightarrow> (1, 0)
      | STEPPER_MODE_DUAL_PHASE \<Rightarrow> (3, 0)
      | STEPPER_MODE_HALF_STEP \<Rightarrow> (1, 1))" for t
    by (simp add: stepper_hold_def split: stepper_mode.splits)
  ultimately show ?thesis using brake_trace [of s] by simp
qed

text \<open>
  On the motor of \<open>main\<close>, whose windings are all PWM driven, hold energises winding 0
  by switching pin 0 to PWM, and brake switches all four pins to plain digital drive and
  writes 0 to the pins 0, 2, 4, 6 (mask 85).
\<close>

lemma hold_main_trace:
  "gpio (stepper_hold main_motor) =
     gpio main_motor @
     [Gpio_set_function 0 GPIO_FUNC_PWM, Gpio_set_function 4 GPIO_FUNC_SIO,
      Gpio_set_function 2 GPIO_FUNC_SIO, Gpio_set_function 6 GPIO_FUNC_SIO,
      Gpio_put_masked 85 0]"
  by (simp add: stepper_hold_def update_def motor_defs)

lemma brake_main_trace:
  "gpio (stepper_brake (stepper_hold main_motor)) =
     gpio (stepper_hold main_motor) @
     [Gpio_set_function 0 GPIO_FUNC_SIO, Gpio_set_function 4 GPIO_FUNC_SIO,
      Gpio_set_function 2 GPIO_FUNC_SIO, Gpio_set_function 6 GPIO_FUNC_SIO,
      Gpio_put_masked 85 0]"
  by (simp add: brake_trace) (simp add: motor_defs)

subsection \<open>Setting the target speed\<close>

lemma divisor_nonzero:
  fixes a b :: u32
  assumes "a \<noteq> 0" and "b \<noteq> 0"
  shows "(ucast a :: u64) * ucast b \<noteq> 0"
proof -
  have a: "0 < unat a" and b: "0 < unat b"
    using assms by (simp_all add: unat_gt_0)
  have small: "unat a < 2 ^ 32" "unat b < 2 ^ 32"
    using unsigned_less [of a, where ?'a = nat] unsigned_less [of b, where ?'a = nat]
    by simp_all
  then have "unat a * unat b < 2 ^ 32 * 2 ^ 32"
    by (intro mult_strict_mono) simp_all
  then have lt: "unat a * unat b < 2 ^ 64" by simp
  have ua: "unat (ucast a :: u64) = unat a" and ub: "unat (ucast b :: u64) = unat b"
    using small by (simp_all add: unsigned_ucast_eq take_bit_nat_eq_self)
  have "unat ((ucast a :: u64) * ucast b) = unat a * unat b"
    using lt unat_mult_lem [of "ucast a :: u64" "ucast b"] by (simp add: ua ub)
  moreover have "0 < unat a * unat b" using a b by simp
  ultimately show ?thesis by (metis unat_0 less_numeral_extra(3))
qed

lemma MIN_u32_min: "MIN_u32 a b = min a b"
  by (auto simp: MIN_u32_def min_def)

lemma set_rpm_changed:
  assumes "MIN_u32 rpm (max_rpm s) \<noteq> target_rpm s" and "steps_per_rev s \<noteq> 0"
  shows "stepper_set_rpm now1 now2 s rpm =
           Inr (s\<lparr>target_rpm := MIN_u32 rpm (max_rpm s),
                  last_step := now1,
                  last_accel_step := now2,
                  us_per_step_target :=
                    (if MIN_u32 rpm (max_rpm s) = 0 then 0
                     else US_PER_MIN div
                            (ucast (MIN_u32 rpm (max_rpm s)) * ucast (steps_per_rev s)))\<rparr>)"
  using assms divisor_nonzero [of "MIN_u32 rpm (max_rpm s)" "steps_per_rev s"]
  by (simp add: stepper_set_rpm_def rpm_to_step_us_def Let_def)

text \<open>
  Claim C10. When the clamped rpm differs from the current target (and the motor has a
  nonzero \<open>steps_per_rev\<close>, so that the conversion is defined), \<open>stepper_set_rpm\<close> returns
  the state in which \<open>last_step\<close> and \<open>last_accel_step\<close> are the two clock readings taken
  during the call, \<open>target_rpm\<close> and \<open>us_per_step_target\<close> are the new target, and every
  other field, the hardware included, is as before.
\<close>

theorem set_rpm_resets_anchors:
  assumes "MIN_u32 rpm (max_rpm s) \<noteq> target_rpm s" and "steps_per_rev s \<noteq> 0"
  shows "stepper_set_rpm now1 now2 s rpm =
           Inr (s\<lparr>target_rpm := MIN_u32 rpm (max_rpm s),
                  last_step := now1,
                  last_accel_step := now2,
                  us_per_step_target :=
                    (if MIN_u32 rpm (max_rpm s) = 0 then 0
                     else US_PER_MIN div
                            (ucast (MIN_u32 rpm (max_rpm s)) * ucast (steps_per_rev s)))\<rparr>)"
  using assms by (rule set_rpm_changed)

theorem set_rpm_resets_anchors_witness:
  "MIN_u32 75 (max_rpm main_motor) \<noteq> target_rpm main_motor \<and>
   steps_per_rev main_motor \<noteq> 0 \<and>
   stepper_set_rpm 7000 7001 main_motor 75 =
     Inr (main_motor\<lparr>target_rpm := 60, last_step := 7000, last_accel_step := 7001,
                     us_per_step_target := 2500\<rparr>)"
proof -
  have h: "MIN_u32 75 (max_rpm main_motor) \<noteq> target_rpm main_motor"
    "steps_per_rev main_motor \<noteq> 0"
    by (simp_all add: motor_defs MIN_u32_def)
  have v: "MIN_u32 75 (max_rpm main_motor) = 60" "steps_per_rev main_motor = 400"
    by (simp_all add: motor_defs MIN_u32_def)
  show ?thesis
    using h set_rpm_resets_anchors [OF h, of 7000 7001]
    by (simp add: v US_PER_MIN_def US_PER_SEC_def)
qed

text \<open>
  Claim C6. On a motor with a nonzero \<open>steps_per_rev\<close>, \<open>stepper_set_rpm\<close> returns a
  state whose \<open>target_rpm\<close> is the minimum of the argument and \<open>max_rpm\<close> (the argument
  is unsigned, so the lower bound 0 is in the type); when the target changes, the new
  target interval is 0 for 0 rpm and the quotient \<open>US_PER_MIN / (rpm * steps_per_rev)\<close>
  otherwise. A second call with the same argument, at any later clock readings, returns
  that state unchanged, so every poll after it behaves as after the first call.
\<close>

theorem set_rpm_clamps_idempotent:
  assumes "steps_per_rev s \<noteq> 0"
  shows "\<exists>s'. stepper_set_rpm now1 now2 s rpm = Inr s' \<and>
           target_rpm s' = min rpm (max_rpm s) \<and>
           target_rpm s' \<le> max_rpm s \<and>
           (target_rpm s' \<noteq> target_rpm s \<longrightarrow>
              us_per_step_target s' =
                (if target_rpm s' = 0 then 0
                 else US_PER_MIN div (ucast (target_rpm s') * ucast (steps_per_rev s)))) \<and>
           (\<forall>t1 t2. stepper_set_rpm t1 t2 s' rpm = Inr s') \<and>
           (\<forall>t1 t2 now. map_sum id (stepper_update now) (stepper_set_rpm t1 t2 s' rpm) =
              Inr (stepper_update now s'))"
proof (cases "MIN_u32 rpm (max_rpm s) = target_rpm s")
  case True
  then have "stepper_set_rpm t1 t2 s rpm = Inr s" for t1 t2
    by (simp add: stepper_set_rpm_def)
  moreover have "target_rpm s \<le> max_rpm s"
    using True by (metis MIN_u32_min min.cobounded2)
  ultimately show ?thesis using True by (simp add: MIN_u32_min)
next
  case False
  let ?r = "MIN_u32 rpm (max_rpm s)"
  let ?s' = "s\<lparr>target_rpm := ?r, last_step := now1, last_accel_step := now2,
               us_per_step_target :=
                 (if ?r = 0 then 0
                  else US_PER_MIN div (ucast ?r * ucast (steps_per_rev s)))\<rparr>"
  have first: "stepper_set_rpm now1 now2 s rpm = Inr ?s'"
    using set_rpm_changed [OF False assms] .
  have again: "stepper_set_rpm t1 t2 ?s' rpm = Inr ?s'" for t1 t2
    by (simp add: stepper_set_rpm_def Let_def)
  show ?thesis
    using first again by (simp add: MIN_u32_min)
qed

theorem set_rpm_clamps_idempotent_witness:
  "steps_per_rev main_motor \<noteq> 0 \<and>
   stepper_set_rpm 7000 7001 main_motor 75 =
     Inr (main_motor\<lparr>target_rpm := 60, last_step := 7000, last_accel_step := 7001,
                     us_per_step_target := 2500\<rparr>) \<and>
   stepper_set_rpm 9000 9001
       (main_motor\<lparr>target_rpm := 60, last_step := 7000, last_accel_step := 7001,
                   us_per_step_target := 2500\<rparr>) 75 =
     Inr (main_motor\<lparr>target_rpm := 60, last_step := 7000, last_accel_step := 7001,
                     us_per_step_target := 2500\<rparr>)"
proof -
  have h: "steps_per_rev main_motor \<noteq> 0"
    by (simp add: motor_defs)
  have first: "stepper_set_rpm 7000 7001 main_motor 75 =
     Inr (main_motor\<lparr>target_rpm := 60, last_step := 7000, last_accel_step := 7001,
                     us_per_step_target := 2500\<rparr>)"
    by (simp add: motor_defs stepper_set_rpm_def rpm_to_step_us_def MIN_u32_def
        US_PER_MIN_def US_PER_SEC_def)
  show ?thesis
    using h first set_rpm_clamps_idempotent [OF h, of 7000 7001 75] by auto
qed

subsection \<open>Configuring the acceleration\<close>

text \<open>
  Whatever the state, \<open>stepper_set_accel\<close> with a nonzero rate and a minimum speed of 0
  reaches a division by zero: if the first conversion succeeds, the second one divides by
  \<open>0 * steps_per_rev\<close>. \<open>stepper_set_rpm\<close> tests \<open>if (rpm)\<close> before it converts;
  \<open>stepper_set_accel\<close> has no such test for \<open>min_rpm\<close>.
\<close>

lemma set_accel_min_rpm_zero_faults:
  "rpm_per_sec \<noteq> 0 \<Longrightarrow> stepper_set_accel s rpm_per_sec 0 = Inl Division_by_zero"
  by (simp add: stepper_set_accel_def rpm_to_step_us_def Let_def split: sum.splits)

text \<open>
  The rate itself can produce the zero divisor: \<open>rpm_per_sec * 60\<close> is computed in 32
  bits, and \<open>2^30 * 60\<close> wraps to 0.
\<close>

lemma set_accel_wrapped_rate_faults:
  "stepper_set_accel main_motor 1073741824 5 = Inl Division_by_zero"
  by (simp add: motor_defs stepper_set_accel_def rpm_to_step_us_def)

text \<open>
  Claim C8 says that no input makes the rpm-to-interval conversion divide by zero, not
  even a minimum ramped speed of 0. On the motor of \<open>main\<close>, the call
  \<open>stepper_set_accel(motor, 60, 0)\<close> evaluates \<open>US_PER_MIN / (0 * 400)\<close>.
\<close>

theorem set_accel_zero_min_rpm_divides_by_zero:
  "stepper_set_accel main_motor 60 0 = Inl Division_by_zero"
  by (simp add: motor_defs stepper_set_accel_def rpm_to_step_us_def
      US_PER_MIN_def US_PER_SEC_def)

subsection \<open>The phase sequencer\<close>

lemma and_one_bit0: "(m AND 1 \<noteq> 0) = bit m 0" for m :: u32
  by (simp add: and_one_eq bit_0 mod_2_eq_odd)

lemma low_mask: "m AND (push_bit n 1 - 1) = take_bit n m" for m :: u32
  by (simp add: take_bit_eq_mask mask_eq_exp_minus_1)

lemma step_mask_alt:
  "step_mask m f n =
     take_bit n
       (if f then drop_bit 1 (if bit m 0 then m OR push_bit n 1 else m)
        else if bit (push_bit 1 m) n then push_bit 1 m OR 1 else push_bit 1 m)"
  unfolding step_mask_def Let_def low_mask and_one_bit0
    bit_iff_and_push_bit_not_eq_0 [symmetric]
  by (rule refl)

text \<open>The bits of a rotated mask, forward (towards bit 0) and backward.\<close>

lemma bit_step_mask_forward:
  "bit (step_mask m True n) j \<longleftrightarrow>
     j < n \<and> (bit m (Suc j) \<or> (bit m 0 \<and> Suc j = n \<and> n < 32))"
  unfolding step_mask_alt
  by (simp only: bit_simps if_True split: if_splits)
     (auto simp: bit_simps dest: bit_imp_le_length)

lemma bit_step_mask_backward:
  "bit (step_mask m False n) j \<longleftrightarrow>
     j < n \<and> ((0 < j \<and> j < 32 \<and> bit m (j - 1)) \<or>
              (j = 0 \<and> 0 < n \<and> n < 32 \<and> bit m (n - 1)))"
  unfolding step_mask_alt
  by (simp only: bit_simps if_False split: if_splits) (auto dest: bit_imp_le_length)

lemma step_mask_keeps_bit:
  assumes "n \<le> 31" and "k < n" and "bit m k"
  shows "\<exists>j<n. bit (step_mask m f n) j"
proof (cases f)
  case True
  show ?thesis
  proof (cases k)
    case 0
    then have "bit (step_mask m True n) (n - 1)"
      using assms by (simp add: bit_step_mask_forward)
    then show ?thesis using True assms by (intro exI [of _ "n - 1"]) simp
  next
    case (Suc j)
    then have "bit (step_mask m True n) j"
      using assms by (simp add: bit_step_mask_forward)
    then show ?thesis using True Suc assms by (intro exI [of _ j]) simp
  qed
next
  case False
  show ?thesis
  proof (cases "Suc k = n")
    case True
    then have "n - 1 = k" by simp
    then have "bit (step_mask m False n) 0"
      using assms by (simp add: bit_step_mask_backward)
    then show ?thesis using False assms by (intro exI [of _ 0]) simp
  next
    case ne: False
    then have "bit (step_mask m False n) (Suc k)"
      using assms by (simp add: bit_step_mask_backward)
    then show ?thesis using False ne assms by (intro exI [of _ "Suc k"]) simp
  qed
qed

lemma bit_single: "bit (2 ^ k :: u32) j \<longleftrightarrow> j = k \<and> k < 32"
  by (auto simp: bit_simps)

text \<open>In a ring of at least two windings a single-bit mask moves to another bit.\<close>

lemma step_mask_single_bit_moves:
  assumes "2 \<le> n" and "n \<le> 31" and "k < n"
  shows "step_mask (push_bit k 1) f n \<noteq> push_bit k 1"
proof -
  define j where "j = (if f then (if k = 0 then n - 1 else k - 1)
                       else (if Suc k = n then 0 else Suc k))"
  have "bit (step_mask (push_bit k 1) f n) j"
    using assms unfolding j_def
    by (cases f) (auto simp: bit_step_mask_forward bit_step_mask_backward bit_single)
  moreover have "\<not> bit (push_bit k 1 :: u32) j"
    using assms unfolding j_def by (auto simp: bit_single)
  ultimately show ?thesis by metis
qed

lemma and_one_odd: "(c AND 1 \<noteq> 0) = odd (unat c)" for c :: u64
proof -
  have "unat (c mod 2) = unat c mod 2"
    by (simp add: unat_mod)
  then have "(c mod 2 \<noteq> 0) = odd (unat c)"
    by (metis unat_0_iff mod_2_eq_odd of_bool_eq_0_iff)
  then show ?thesis by (simp add: and_one_eq)
qed


lemma step_rotates:
  assumes "mask_main s \<noteq> 0"
  shows "step_count (step s f) = step_count s + 1"
    and "(if mode s \<noteq> STEPPER_MODE_HALF_STEP \<or> odd (unat (step_count s))
          then mask_main (step s f) = step_mask (mask_main s) f (num_pins s) \<and>
               half_mask (step s f) = half_mask s
          else half_mask (step s f) = step_mask (half_mask s) f (num_pins s) \<and>
               mask_main (step s f) = mask_main s)"
  using assms by (simp_all add: step_def Let_def and_one_odd)

text \<open>
  Claim C5, as the code has it. In half-step mode a step taken while the main mask is
  nonzero rotates exactly one mask and leaves the other as it was: the main mask when
  \<open>step_count\<close> is odd at that moment, the half mask when it is even; \<open>step_count\<close>
  then grows by one. When the rotated mask is a single bit inside a ring of 2 to 31
  windings, its value does change. (A step taken while the main mask is zero is the
  subject of the next theorem.)
\<close>

theorem half_step_rotates_one_mask:
  assumes "mode s = STEPPER_MODE_HALF_STEP" and "mask_main s \<noteq> 0"
  shows "(if odd (unat (step_count s))
          then mask_main (step s f) = step_mask (mask_main s) f (num_pins s) \<and>
               half_mask (step s f) = half_mask s
          else half_mask (step s f) = step_mask (half_mask s) f (num_pins s) \<and>
               mask_main (step s f) = mask_main s) \<and>
         step_count (step s f) = step_count s + 1 \<and>
         (\<forall>k. 2 \<le> num_pins s \<and> num_pins s \<le> 31 \<and> k < num_pins s \<and>
              (if odd (unat (step_count s)) then mask_main s else half_mask s) = push_bit k 1
            \<longrightarrow> (if odd (unat (step_count s)) then mask_main (step s f) \<noteq> mask_main s
                 else half_mask (step s f) \<noteq> half_mask s))"
proof -
  have rot: "(if odd (unat (step_count s))
          then mask_main (step s f) = step_mask (mask_main s) f (num_pins s) \<and>
               half_mask (step s f) = half_mask s
          else half_mask (step s f) = step_mask (half_mask s) f (num_pins s) \<and>
               mask_main (step s f) = mask_main s)"
    and cnt: "step_count (step s f) = step_count s + 1"
    using assms by (simp_all add: step_def Let_def and_one_odd)
  have "(if odd (unat (step_count s)) then mask_main (step s f) \<noteq> mask_main s
         else half_mask (step s f) \<noteq> half_mask s)"
    if "2 \<le> num_pins s" "num_pins s \<le> 31" "k < num_pins s"
       "(if odd (unat (step_count s)) then mask_main s else half_mask s) = push_bit k 1" for k
    using rot that step_mask_single_bit_moves [OF that(1,2,3), of f]
    by (auto split: if_splits)
  then show ?thesis using rot cnt by blast
qed

theorem half_step_rotates_one_mask_witness:
  "mode (stepper_hold main_motor) = STEPPER_MODE_HALF_STEP \<and>
   mask_main (stepper_hold main_motor) \<noteq> 0 \<and>
   step_count (stepper_hold main_motor) = 0 \<and>
   half_mask (stepper_hold main_motor) = 1 \<and>
   half_mask (step (stepper_hold main_motor) True) = 8 \<and>
   mask_main (step (stepper_hold main_motor) True) = mask_main (stepper_hold main_motor) \<and>
   step_count (step (stepper_hold main_motor) True) = 1"
proof -
  have h: "mode (stepper_hold main_motor) = STEPPER_MODE_HALF_STEP"
    "mask_main (stepper_hold main_motor) \<noteq> 0"
    by (simp_all add: stepper_hold_def motor_defs)
  have v: "step_count (stepper_hold main_motor) = 0" "half_mask (stepper_hold main_motor) = 1"
    "num_pins (stepper_hold main_motor) = 4"
    by (simp_all add: stepper_hold_def motor_defs num_pins_def)
  have m: "step_mask 1 True 4 = 8"
    by (simp add: step_mask_def)
  show ?thesis
    using h half_step_rotates_one_mask [OF h, of True] by (simp add: v m)
qed

text \<open>
  Claim C5 as stated fails for a step taken on a braked motor. On the half-step motor
  of \<open>main\<close>, after \<open>stepper_brake\<close>, one call of \<open>step\<close> takes the branch
  \<open>if (!s->mask)\<close>, which calls \<open>stepper_hold\<close>: both masks go from 0 to 1 in the same
  step.
\<close>

theorem braked_step_sets_both_masks:
  "mode (stepper_brake main_motor) = STEPPER_MODE_HALF_STEP \<and>
   mask_main (step (stepper_brake main_motor) True) \<noteq> mask_main (stepper_brake main_motor) \<and>
   half_mask (step (stepper_brake main_motor) True) \<noteq> half_mask (stepper_brake main_motor)"
  by (simp add: step_def stepper_brake_def stepper_hold_def motor_defs)

subsection \<open>The pattern never clears while held or stepping\<close>

lemma ring_bit_nonzero: "ring_bit s \<Longrightarrow> mask_main s OR half_mask s \<noteq> 0"
  by (auto simp: ring_bit_def or_eq_0_iff)

lemma ring_bit_mask: "ring_bit s \<Longrightarrow> mask_main s \<noteq> 0"
  by (auto simp: ring_bit_def)

lemma hold_ring_bit: "1 \<le> num_pins s \<Longrightarrow> ring_bit (stepper_hold s)"
  unfolding ring_bit_def
  by (intro exI [of _ 0])
     (auto simp add: stepper_hold_def num_pins_def bit_0 split: stepper_mode.splits)

lemma step_num_pins [simp]: "num_pins (step s f) = num_pins s"
  by (simp add: num_pins_def)

lemma step_ring_bit:
  assumes "1 \<le> num_pins s" and "num_pins s \<le> 31" and "ring_bit s"
  shows "ring_bit (step s f)"
proof (cases "mask_main s = 0")
  case True
  then show ?thesis using assms(1) hold_ring_bit [of s] by (simp add: step_def)
next
  case False
  obtain k where k: "k < num_pins s" "bit (mask_main s) k"
    using assms(3) by (auto simp: ring_bit_def)
  show ?thesis
  proof (cases "mode s \<noteq> STEPPER_MODE_HALF_STEP \<or> step_count s AND 1 \<noteq> 0")
    case True
    then have "mask_main (step s f) = step_mask (mask_main s) f (num_pins s)"
      using False by (auto simp add: step_def Let_def)
    then show ?thesis
      using step_mask_keeps_bit [OF assms(2) k, of f] by (simp add: ring_bit_def)
  next
    case no: False
    then have "mask_main (step s f) = mask_main s"
      using False by (simp add: step_def Let_def)
    then show ?thesis using k by (auto simp: ring_bit_def)
  qed
qed

lemma ramp_masks [simp]:
  "mask_main (stepper_update_ramp now s) = mask_main s"
  "half_mask (stepper_update_ramp now s) = half_mask s"
  "pins (stepper_update_ramp now s) = pins s"
  "mode (stepper_update_ramp now s) = mode s"
  "step_count (stepper_update_ramp now s) = step_count s"
  "last_step (stepper_update_ramp now s) = last_step s"
  "gpio (stepper_update_ramp now s) = gpio s"
  by (simp_all add: stepper_update_ramp_def Let_def)

lemma ramp_ring_bit: "ring_bit (stepper_update_ramp now s) = ring_bit s"
  by (simp add: ring_bit_def num_pins_def)

lemma poll_ring_bit:
  assumes "1 \<le> num_pins s" and "num_pins s \<le> 31" and "ring_bit s"
  shows "ring_bit (snd (stepper_update now s))"
proof -
  let ?r = "stepper_update_ramp now s"
  have r: "1 \<le> num_pins ?r" "num_pins ?r \<le> 31" "ring_bit ?r"
    using assms by (simp_all add: ramp_ring_bit) (simp_all add: num_pins_def)
  have "snd (stepper_update now s) = ?r \<or>
        snd (stepper_update now s) = (step ?r True)\<lparr>last_step := last_step ?r + us_per_step ?r\<rparr>"
    by (simp add: stepper_update_def stepper_update_clock_def Let_def)
  moreover have "ring_bit ((step ?r True)\<lparr>last_step := t\<rparr>)" for t
    using step_ring_bit [OF r, of True] by (simp add: ring_bit_def num_pins_def)
  ultimately show ?thesis using r(3) by auto
qed

lemma poll_pins [simp]: "pins (snd (stepper_update now s)) = pins s"
  by (simp add: stepper_update_def stepper_update_clock_def Let_def)

lemma set_rpm_masks:
  assumes "stepper_set_rpm now1 now2 s rpm = Inr s'"
  shows "mask_main s' = mask_main s \<and> half_mask s' = half_mask s \<and> pins s' = pins s"
  using assms
  by (auto simp: stepper_set_rpm_def Let_def split: if_splits sum.splits)

lemma set_accel_masks:
  assumes "stepper_set_accel s r m = Inr s'"
  shows "mask_main s' = mask_main s \<and> half_mask s' = half_mask s \<and> pins s' = pins s"
  using assms
  by (auto simp: stepper_set_accel_def Let_def split: if_splits sum.splits)

lemma held_or_stepping_ring_bit:
  "held_or_stepping s \<Longrightarrow> 1 \<le> num_pins s \<Longrightarrow> num_pins s \<le> 31 \<Longrightarrow> ring_bit s"
proof (induction rule: held_or_stepping.induct)
  case (hold s)
  then show ?case using hold_ring_bit [of s] by (simp add: num_pins_def)
next
  case (direct s now forward)
  then have "ring_bit (step s forward)"
    using step_ring_bit [of s forward] by (simp add: stepper_step_def Let_def num_pins_def)
  then show ?case by (simp add: stepper_step_def Let_def ring_bit_def num_pins_def)
next
  case (poll s now)
  then show ?case using poll_ring_bit [of s now] by (simp add: num_pins_def)
next
  case (speed s now1 now2 rpm s')
  then show ?case using set_rpm_masks [of now1 now2 s rpm s']
    by (simp add: ring_bit_def num_pins_def)
next
  case (accel s rpm_per_sec min_rpm s')
  then show ?case using set_accel_masks [of s rpm_per_sec min_rpm s']
    by (simp add: ring_bit_def num_pins_def)
qed

lemma held_mask_nonzero:
  "held_or_stepping s \<Longrightarrow> 1 \<le> num_pins s \<Longrightarrow> num_pins s \<le> 31 \<Longrightarrow> mask_main s \<noteq> 0"
  using held_or_stepping_ring_bit ring_bit_mask by blast

text \<open>
  Claim C9, as the code has it. With 1 to 31 windings registered, in every state reached
  from \<open>stepper_hold\<close> by direct steps, polls and changes of speed or acceleration, the
  combined pattern \<open>mask | half_mask\<close> is nonzero. \<open>stepper_brake\<close> clears both masks;
  and a step taken in a state with both masks zero is \<open>stepper_hold\<close>, which sets a
  nonzero pattern.
\<close>

theorem pattern_nonzero_while_held_or_stepping:
  assumes "held_or_stepping s" and "1 \<le> num_pins s" and "num_pins s \<le> 31"
  shows "mask_main s OR half_mask s \<noteq> 0 \<and>
         mask_main (stepper_brake s) OR half_mask (stepper_brake s) = 0 \<and>
         (\<forall>t f. mask_main t = 0 \<and> half_mask t = 0 \<longrightarrow>
            step t f = stepper_hold t \<and>
            mask_main (stepper_hold t) OR half_mask (stepper_hold t) \<noteq> 0)"
proof -
  have "mask_main s OR half_mask s \<noteq> 0"
    using held_or_stepping_ring_bit [OF assms] by (rule ring_bit_nonzero)
  moreover have "mask_main (stepper_brake s) OR half_mask (stepper_brake s) = 0"
    by (simp add: stepper_brake_def)
  moreover have "mask_main (stepper_hold t) OR half_mask (stepper_hold t) \<noteq> 0" for t
    by (simp add: stepper_hold_def or_eq_0_iff split: stepper_mode.splits)
  moreover have "mask_main t = 0 \<Longrightarrow> step t f = stepper_hold t" for t f
    by (simp add: step_def)
  ultimately show ?thesis by blast
qed

theorem pattern_nonzero_while_held_or_stepping_witness:
  "held_or_stepping (stepper_step 100 (stepper_hold main_motor) True) \<and>
   1 \<le> num_pins (stepper_step 100 (stepper_hold main_motor) True) \<and>
   num_pins (stepper_step 100 (stepper_hold main_motor) True) \<le> 31 \<and>
   mask_main (stepper_step 100 (stepper_hold main_motor) True) OR
     half_mask (stepper_step 100 (stepper_hold main_motor) True) = 9 \<and>
   mask_main (stepper_brake main_motor) = 0 \<and> half_mask (stepper_brake main_motor) = 0 \<and>
   step (stepper_brake main_motor) True = stepper_hold (stepper_brake main_motor)"
proof -
  let ?s = "stepper_step 100 (stepper_hold main_motor) True"
  have h1: "held_or_stepping ?s"
    by (intro held_or_stepping.intros)
  have n: "num_pins ?s = 4"
    by (simp add: num_pins_def stepper_step_def Let_def motor_defs)
  have h: "held_or_stepping ?s" "1 \<le> num_pins ?s" "num_pins ?s \<le> 31"
    using h1 by (simp_all add: n)
  have v: "mask_main ?s OR half_mask ?s = 9"
    by (simp add: stepper_step_def step_def Let_def stepper_hold_def motor_defs
        num_pins_def step_mask_def)
  have z: "mask_main (stepper_brake main_motor) = 0" "half_mask (stepper_brake main_motor) = 0"
    by (simp_all add: stepper_brake_def)
  have "mask_main t = 0 \<and> half_mask t = 0 \<longrightarrow> step t f = stepper_hold t" for t f
    using pattern_nonzero_while_held_or_stepping [OF h] by blast
  from this [of "stepper_brake main_motor" True]
  show ?thesis
    using h v z by simp
qed

text \<open>
  Claim C9 as stated fails when no winding is registered. A wave-drive motor with no
  pins is held and then stepped once: \<open>step_mask\<close> with \<open>num_pins = 0\<close> shifts the single
  bit out and masks with \<open>(1 << 0) - 1 = 0\<close>, so both masks are zero in a state that is
  held and stepping and was never braked.
\<close>

theorem no_winding_step_clears_pattern:
  "held_or_stepping
     (stepper_step 100 (stepper_hold (stepper_create 200 60 STEPPER_MODE_WAVE 8)) True) \<and>
   mask_main (stepper_step 100 (stepper_hold (stepper_create 200 60 STEPPER_MODE_WAVE 8)) True) OR
   half_mask (stepper_step 100 (stepper_hold (stepper_create 200 60 STEPPER_MODE_WAVE 8)) True)
     = 0"
proof -
  have "held_or_stepping
     (stepper_step 100 (stepper_hold (stepper_create 200 60 STEPPER_MODE_WAVE 8)) True)"
    by (intro held_or_stepping.intros)
  then show ?thesis
    by (simp add: stepper_step_def step_def Let_def stepper_hold_def stepper_create_def
        num_pins_def step_mask_def)
qed

subsection \<open>Arithmetic of the two clocks\<close>

text \<open>
  A quotient below \<open>2^31\<close> survives the conversion to \<open>int\<close> and back to 64 bits.
\<close>

lemma sint_small64:
  fixes a :: u64
  assumes "unat a < 2 ^ 63"
  shows "sint a = int (unat a)"
proof -
  have "int (unat a) < int (2 ^ 63)" using assms by (simp only: of_nat_less_iff)
  then have lt: "uint a < 2 ^ 63" by simp
  have "- (2 ^ 63) \<le> (0::int)" by simp
  then have ge: "- (2 ^ 63) \<le> uint a"
    using unsigned_greater_eq [of a, where ?'a = int] by (rule order_trans)
  have "signed_take_bit 63 (uint a) = uint a"
    using ge lt by (rule signed_take_bit_int_eq_self)
  then show ?thesis by (simp add: sint_uint)
qed

lemma sint_small32:
  fixes a :: u32
  assumes "unat a < 2 ^ 31"
  shows "sint a = int (unat a)"
proof -
  have "int (unat a) < int (2 ^ 31)" using assms by (simp only: of_nat_less_iff)
  then have lt: "uint a < 2 ^ 31" by simp
  have "- (2 ^ 31) \<le> (0::int)" by simp
  then have ge: "- (2 ^ 31) \<le> uint a"
    using unsigned_greater_eq [of a, where ?'a = int] by (rule order_trans)
  have "signed_take_bit 31 (uint a) = uint a"
    using ge lt by (rule signed_take_bit_int_eq_self)
  then show ?thesis by (simp add: sint_uint)
qed

lemma int_cut:
  fixes w :: u64
  assumes "unat w < 2 ^ 31"
  shows "unat (ucast w :: u32) = unat w"
    and "sint (ucast w :: u32) = int (unat w)"
    and "(scast (ucast w :: u32) :: u64) = w"
proof -
  have "unat w < 2 ^ 32" using assms by simp
  then show u: "unat (ucast w :: u32) = unat w"
    by (simp add: unsigned_ucast_eq take_bit_nat_eq_self)
  then show s: "sint (ucast w :: u32) = int (unat w)"
    using assms sint_small32 [of "ucast w"] by simp
  show "(scast (ucast w :: u32) :: u64) = w"
    by (simp add: scast_eq s)
qed

lemma elapsed_split:
  fixes now last d :: u64
  assumes "last \<le> now" and "d \<noteq> 0"
    and "q = unat (now - last) div unat d"
    and "k \<le> q"
  shows "unat (d * of_nat k) = unat d * k"
    and "unat (last + d * of_nat k) = unat last + unat d * k"
    and "last + d * of_nat k \<le> now"
    and "unat (now - (last + d * of_nat k)) = unat (now - last) - unat d * k"
proof -
  have e: "unat (now - last) = unat now - unat last" and le: "unat last \<le> unat now"
    using assms(1) by (simp_all add: unat_sub word_le_nat_alt)
  have "unat d * k \<le> unat d * q" using assms(4) by simp
  also have "\<dots> \<le> unat (now - last)" using assms(3) by simp
  finally have dk: "unat d * k \<le> unat now - unat last" using e by simp
  have now: "unat now < 2 ^ 64" using unsigned_less [of now, where ?'a = nat] by simp
  have klt: "k < 2 ^ 64"
  proof -
    have "0 < unat d" using assms(2) by (simp add: unat_gt_0)
    then have "k \<le> unat d * k" by simp
    then show ?thesis using dk now by linarith
  qed
  have uk: "unat (of_nat k :: u64) = k"
    using klt by (simp add: unat_of_nat take_bit_nat_eq_self)
  have dk64: "unat d * k < 2 ^ 64" using dk now by linarith
  have "unat d * unat (of_nat k :: u64) < 2 ^ LENGTH(64)"
    using dk64 by (simp add: uk)
  then have "unat (d * of_nat k) = unat d * unat (of_nat k :: u64)"
    by (rule unat_mult_lem [THEN iffD1])
  then show m: "unat (d * of_nat k) = unat d * k"
    by (simp only: uk)
  have "unat last + unat d * k < 2 ^ 64" using dk le now by linarith
  then have "unat last + unat (d * of_nat k) < 2 ^ LENGTH(64)"
    by (simp add: m)
  then have "unat (last + d * of_nat k) = unat last + unat (d * of_nat k)"
    by (rule unat_add_lem [THEN iffD1])
  then show a: "unat (last + d * of_nat k) = unat last + unat d * k"
    by (simp only: m)
  have "unat (last + d * of_nat k) \<le> unat now"
    using dk le unfolding a by linarith
  then show l: "last + d * of_nat k \<le> now"
    by (simp only: word_le_nat_alt)
  have "unat (now - (last + d * of_nat k)) = unat now - unat (last + d * of_nat k)"
    using l by (rule unat_sub)
  then show "unat (now - (last + d * of_nat k)) = unat (now - last) - unat d * k"
    unfolding a e by linarith
qed

subsection \<open>The step clock\<close>

lemma update_pins_writes:
  "update_pins b i ps (m, v, cs) = (m', v', cs') \<Longrightarrow>
     filter is_put_masked cs' = filter is_put_masked cs"
proof (induction ps arbitrary: i m v cs)
  case Nil
  then show ?case by simp
next
  case (Cons p ps)
  then show ?case
    by (fastforce simp: Let_def split: if_splits)
qed

lemma update_writes [simp]: "pattern_writes (update s) = pattern_writes s + 1"
proof -
  obtain m v cs where u: "update_pins (mask_main s OR half_mask s) 0 (pins s) (0, 0, []) = (m, v, cs)"
    by (metis prod_cases3)
  then have "filter is_put_masked cs = []"
    using update_pins_writes [OF u] by simp
  then show ?thesis using u by (simp add: update_def pattern_writes_def)
qed

lemma writes_frame [simp]:
  "pattern_writes (s\<lparr>mask_main := a\<rparr>) = pattern_writes s"
  "pattern_writes (s\<lparr>half_mask := a\<rparr>) = pattern_writes s"
  "pattern_writes (s\<lparr>step_count := c\<rparr>) = pattern_writes s"
  "pattern_writes (s\<lparr>last_step := t\<rparr>) = pattern_writes s"
  "pattern_writes (s\<lparr>last_accel_step := t\<rparr>) = pattern_writes s"
  "pattern_writes (s\<lparr>us_per_step := t\<rparr>) = pattern_writes s"
  "pattern_writes (s\<lparr>target_rpm := r\<rparr>) = pattern_writes s"
  "pattern_writes (s\<lparr>us_per_step_target := t\<rparr>) = pattern_writes s"
  by (simp_all add: pattern_writes_def)

lemma hold_writes [simp]: "pattern_writes (stepper_hold s) = pattern_writes s + 1"
  by (simp add: stepper_hold_def split: stepper_mode.splits)

lemma step_writes [simp]: "pattern_writes (step s f) = pattern_writes s + 1"
  by (simp add: step_def Let_def)

lemma ramp_writes [simp]: "pattern_writes (stepper_update_ramp now s) = pattern_writes s"
  by (simp add: stepper_update_ramp_def Let_def)

lemma clock_step:
  assumes "us_per_step s \<noteq> 0" and "last_step s \<le> now"
    and "q = unat (now - last_step s) div unat (us_per_step s)" and "q < 2 ^ 31"
  shows "stepper_update_clock now s =
           (1 < q, if 1 \<le> q then (step s True)\<lparr>last_step := last_step s + us_per_step s\<rparr>
                   else s)"
proof -
  let ?w = "(now - last_step s) div us_per_step s"
  have w: "unat ?w = q" using assms(3) by (simp add: unat_div)
  then have small: "unat ?w < 2 ^ 31" using assms(4) by simp
  have u: "unat (ucast ?w :: u32) = q" and sg: "sint (ucast ?w :: u32) = int q"
    using int_cut(1,2) [OF small] w by simp_all
  have nz: "(ucast ?w :: u32) \<noteq> 0 \<longleftrightarrow> 1 \<le> q"
    using u by (metis unat_0_iff One_nat_def Suc_leI not_less_eq_eq le_zero_eq neq0_conv)
  have gt: "(1 <s (ucast ?w :: u32)) \<longleftrightarrow> 1 < q"
    by (simp add: word_sless_alt sg)
  show ?thesis
    using assms(1,2) by (simp add: stepper_update_clock_def Let_def nz gt)
qed

lemma steady_ramp:
  assumes "steady s"
  shows "us_per_step (stepper_update_ramp now s) = us_per_step_target s"
    and "us_per_step_target (stepper_update_ramp now s) = us_per_step_target s"
    and "us_accel (stepper_update_ramp now s) = us_accel s"
  using assms by (auto simp: steady_def stepper_update_ramp_def Let_def)

lemma poll_one_step:
  assumes "us_per_step (stepper_update_ramp now s) \<noteq> 0" and "last_step s \<le> now"
    and "q = unat (now - last_step s) div unat (us_per_step (stepper_update_ramp now s))"
    and "q < 2 ^ 31"
  shows "stepper_update now s =
           (1 < q,
            if 1 \<le> q
            then (step (stepper_update_ramp now s) True)
                   \<lparr>last_step := last_step s + us_per_step (stepper_update_ramp now s)\<rparr>
            else stepper_update_ramp now s)"
  using clock_step [of "stepper_update_ramp now s" now q] assms
  by (simp add: stepper_update_def)

lemma backlog_shrinks:
  fixes now last p :: u64
  assumes "last \<le> now" and "p \<noteq> 0" and "1 \<le> unat (now - last) div unat p"
  shows "last + p \<le> now"
    and "unat (last + p) = unat last + unat p"
    and "unat (now - (last + p)) div unat p = unat (now - last) div unat p - 1"
proof -
  have k: "(1::nat) \<le> unat (now - last) div unat p" using assms(3) .
  note sp = elapsed_split [OF assms(1,2) refl k]
  show "last + p \<le> now" using sp(3) by simp
  show "unat (last + p) = unat last + unat p" using sp(2) by simp
  have e: "unat (now - (last + p)) = unat (now - last) - unat p" using sp(4) by simp
  have pos: "0 < unat p" using assms(2) by (simp add: unat_gt_0)
  have "unat p \<le> unat (now - last)"
    using k pos by (metis div_greater_zero_iff less_eq_Suc_le One_nat_def)
  then have "unat (now - last) div unat p = Suc ((unat (now - last) - unat p) div unat p)"
    using pos by (simp add: le_div_geq)
  then show "unat (now - (last + p)) div unat p = unat (now - last) div unat p - 1"
    unfolding e by simp
qed

lemma steady_poll:
  assumes "steady s" and "last_step s \<le> now"
    and "q = unat (now - last_step s) div unat (us_per_step_target s)" and "q < 2 ^ 31"
  shows "fst (stepper_update now s) = (1 < q)"
    and "pattern_writes (snd (stepper_update now s)) = pattern_writes s + (if 1 \<le> q then 1 else 0)"
    and "steady (snd (stepper_update now s))"
    and "us_per_step_target (snd (stepper_update now s)) = us_per_step_target s"
    and "last_step (snd (stepper_update now s)) \<le> now"
    and "unat (now - last_step (snd (stepper_update now s))) div unat (us_per_step_target s) = q - 1"
proof -
  let ?r = "stepper_update_ramp now s"
  let ?p = "us_per_step_target s"
  have p: "us_per_step ?r = ?p" "us_per_step_target ?r = ?p" "us_accel ?r = us_accel s"
    using steady_ramp [OF assms(1)] by simp_all
  have nz: "?p \<noteq> 0" using assms(1) by (simp add: steady_def)
  have eq: "stepper_update now s =
     (1 < q, if 1 \<le> q then (step ?r True)\<lparr>last_step := last_step s + ?p\<rparr> else ?r)"
    using poll_one_step [of now s q] assms(2,3,4) nz by (simp add: p)
  show "fst (stepper_update now s) = (1 < q)" by (simp add: eq)
  show "pattern_writes (snd (stepper_update now s)) = pattern_writes s + (if 1 \<le> q then 1 else 0)"
    by (simp add: eq)
  show "steady (snd (stepper_update now s))"
    using assms(1) p nz by (simp add: eq steady_def)
  show "us_per_step_target (snd (stepper_update now s)) = us_per_step_target s"
    using p by (simp add: eq)
  show "last_step (snd (stepper_update now s)) \<le> now"
  proof (cases "1 \<le> q")
    case True
    then show ?thesis
      using backlog_shrinks(1) [OF assms(2) nz] assms(3) by (simp add: eq)
  next
    case False
    then show ?thesis using assms(2) by (simp add: eq)
  qed
  show "unat (now - last_step (snd (stepper_update now s))) div unat ?p = q - 1"
  proof (cases "1 \<le> q")
    case True
    then show ?thesis
      using backlog_shrinks(3) [OF assms(2) nz] assms(3) by (simp add: eq)
  next
    case False
    then show ?thesis using assms(3) by (simp add: eq)
  qed
qed

text \<open>The cruising motor, field by field; its ramp update changes nothing.\<close>

lemma main_motor_writes: "pattern_writes main_motor = 0"
  by (simp add: motor_defs pattern_writes_def word_sle_eq)

lemma cruising_fields:
  "us_accel cruising_motor = 0" "us_per_step_target cruising_motor = 2500"
  "us_per_step cruising_motor = 2500" "last_step cruising_motor = 1000"
  "step_count cruising_motor = 0" "mask_main cruising_motor = 1"
  "half_mask cruising_motor = 1" "mode cruising_motor = STEPPER_MODE_HALF_STEP"
  "num_pins cruising_motor = 4"
  by (simp_all add: cruising_motor_def num_pins_def)
     (simp_all add: motor_defs stepper_hold_def)

lemma cruising_writes: "pattern_writes cruising_motor = 1"
  by (simp add: cruising_motor_def main_motor_writes)

lemma cruising_ramp: "stepper_update_ramp now cruising_motor = cruising_motor"
  by (simp add: stepper_update_ramp_def cruising_fields)

text \<open>
  The cruising motor is reached by public calls: hold, \<open>stepper_set_rpm\<close> with 60 at the
  clock reading 1000, and one poll at that reading.
\<close>

lemma cruising_reachable: "held_or_stepping cruising_motor"
proof -
  let ?h = "stepper_hold main_motor"
  let ?t = "?h\<lparr>target_rpm := 60, last_step := 1000, last_accel_step := 1000,
              us_per_step_target := 2500\<rparr>"
  have "stepper_set_rpm 1000 1000 ?h 60 = Inr ?t"
    by (simp add: stepper_set_rpm_def rpm_to_step_us_def MIN_u32_def Let_def
        US_PER_MIN_def US_PER_SEC_def stepper_hold_def motor_defs)
  then have t: "held_or_stepping ?t"
    using held_or_stepping.speed [OF held_or_stepping.hold] by blast
  have f: "us_accel main_motor = 0"
    by (simp add: motor_defs)
  have "snd (stepper_update 1000 ?t) = cruising_motor"
    by (simp add: stepper_update_def stepper_update_ramp_def stepper_update_clock_def
        cruising_motor_def f)
  then show ?thesis using held_or_stepping.poll [OF t, of 1000] by simp
qed

lemma poll_num_pins [simp]: "num_pins (snd (stepper_update now s)) = num_pins s"
  by (simp add: num_pins_def)

lemma ramp_num_pins [simp]: "num_pins (stepper_update_ramp now s) = num_pins s"
  by (simp add: num_pins_def)

lemma poll_advances:
  assumes "us_per_step (stepper_update_ramp now s) \<noteq> 0" and "last_step s \<le> now"
    and "q = unat (now - last_step s) div unat (us_per_step (stepper_update_ramp now s))"
    and "1 \<le> q" and "q < 2 ^ 31" and "mask_main s \<noteq> 0"
  shows "step_count (snd (stepper_update now s)) = step_count s + 1"
    and "(if mode s \<noteq> STEPPER_MODE_HALF_STEP \<or> odd (unat (step_count s))
          then mask_main (snd (stepper_update now s)) =
                 step_mask (mask_main s) True (num_pins s) \<and>
               half_mask (snd (stepper_update now s)) = half_mask s
          else half_mask (snd (stepper_update now s)) =
                 step_mask (half_mask s) True (num_pins s) \<and>
               mask_main (snd (stepper_update now s)) = mask_main s)"
    and "pattern_writes (snd (stepper_update now s)) = pattern_writes s + 1"
proof -
  let ?r = "stepper_update_ramp now s"
  have eq: "snd (stepper_update now s) =
              (step ?r True)\<lparr>last_step := last_step s + us_per_step ?r\<rparr>"
    using poll_one_step [OF assms(1,2,3,5)] assms(4) by simp
  have m: "mask_main ?r \<noteq> 0" using assms(6) by simp
  show "step_count (snd (stepper_update now s)) = step_count s + 1"
    using step_rotates(1) [OF m, of True] by (simp add: eq)
  show "(if mode s \<noteq> STEPPER_MODE_HALF_STEP \<or> odd (unat (step_count s))
          then mask_main (snd (stepper_update now s)) =
                 step_mask (mask_main s) True (num_pins s) \<and>
               half_mask (snd (stepper_update now s)) = half_mask s
          else half_mask (snd (stepper_update now s)) =
                 step_mask (half_mask s) True (num_pins s) \<and>
               mask_main (snd (stepper_update now s)) = mask_main s)"
    using step_rotates(2) [OF m, of True] by (simp add: eq)
  show "pattern_writes (snd (stepper_update now s)) = pattern_writes s + 1"
    by (simp add: eq)
qed

lemma steady_poll_held:
  assumes "steady s" and "last_step s \<le> now"
    and "q = unat (now - last_step s) div unat (us_per_step_target s)" and "q < 2 ^ 31"
    and "held_or_stepping s" and "1 \<le> num_pins s" and "num_pins s \<le> 31"
  shows "step_count (snd (stepper_update now s)) = step_count s + (if 1 \<le> q then 1 else 0)"
    and "held_or_stepping (snd (stepper_update now s))"
    and "1 \<le> num_pins (snd (stepper_update now s))"
    and "num_pins (snd (stepper_update now s)) \<le> 31"
proof -
  let ?r = "stepper_update_ramp now s"
  have p: "us_per_step ?r = us_per_step_target s"
    using steady_ramp(1) [OF assms(1)] .
  have nz: "us_per_step ?r \<noteq> 0" using assms(1) p by (simp add: steady_def)
  have q: "q = unat (now - last_step s) div unat (us_per_step ?r)"
    using assms(3) p by simp
  have m: "mask_main s \<noteq> 0" using held_mask_nonzero [OF assms(5,6,7)] .
  show "step_count (snd (stepper_update now s)) = step_count s + (if 1 \<le> q then 1 else 0)"
  proof (cases "1 \<le> q")
    case True
    then show ?thesis using poll_advances(1) [OF nz assms(2) q True assms(4) m] by simp
  next
    case False
    then have "snd (stepper_update now s) = ?r"
      using poll_one_step [OF nz assms(2) q assms(4)] by simp
    then show ?thesis using False by simp
  qed
  show "held_or_stepping (snd (stepper_update now s))"
    using assms(5) by (rule held_or_stepping.poll)
  show "1 \<le> num_pins (snd (stepper_update now s))" "num_pins (snd (stepper_update now s)) \<le> 31"
    using assms(6,7) by simp_all
qed

text \<open>
  Claim C1, as the code has it. Let \<open>p\<close> be the current interval after the ramp update
  of the poll and \<open>q\<close> the number of whole intervals \<open>p\<close> elapsed since \<open>last_step\<close>.
  If \<open>p\<close> is nonzero, \<open>1 \<le> q < 2^31\<close> and the main mask is nonzero (the motor is held
  or stepping, not braked), the poll advances the phase sequencer exactly once:
  \<open>step_count\<close> grows by one, one mask is rotated forward by \<open>step_mask\<close> (chosen as
  \<open>step\<close> chooses it) and the other is left as it was, and one pattern is written. It
  advances \<open>last_step\<close> by exactly \<open>p\<close> and returns the fell-behind signal \<open>1 < q\<close>.
  In a steady state (target nonzero, ramping off or finished) of a motor with 1 to 31
  windings that is held or stepping, with \<open>q = 5\<close>, six polls at the same clock reading
  return true, true, true, true, false, false and leave \<open>step_count\<close> at 1, 2, 3, 4, 5, 5
  above its start: five polls take one step each, the first four signal falling behind,
  the sixth takes none.
\<close>

theorem poll_takes_one_step:
  assumes "us_per_step (stepper_update_ramp now s) \<noteq> 0" and "last_step s \<le> now"
    and "q = unat (now - last_step s) div unat (us_per_step (stepper_update_ramp now s))"
    and "1 \<le> q" and "q < 2 ^ 31" and "mask_main s \<noteq> 0"
  shows "step_count (snd (stepper_update now s)) = step_count s + 1 \<and>
         (if mode s \<noteq> STEPPER_MODE_HALF_STEP \<or> odd (unat (step_count s))
          then mask_main (snd (stepper_update now s)) =
                 step_mask (mask_main s) True (num_pins s) \<and>
               half_mask (snd (stepper_update now s)) = half_mask s
          else half_mask (snd (stepper_update now s)) =
                 step_mask (half_mask s) True (num_pins s) \<and>
               mask_main (snd (stepper_update now s)) = mask_main s) \<and>
         pattern_writes (snd (stepper_update now s)) = pattern_writes s + 1 \<and>
         snd (stepper_update now s) =
           (step (stepper_update_ramp now s) True)
              \<lparr>last_step := last_step s + us_per_step (stepper_update_ramp now s)\<rparr> \<and>
         unat (last_step (snd (stepper_update now s))) =
           unat (last_step s) + unat (us_per_step (stepper_update_ramp now s)) \<and>
         fst (stepper_update now s) = (1 < q) \<and>
         (steady s \<and> q = 5 \<and> held_or_stepping s \<and> 1 \<le> num_pins s \<and> num_pins s \<le> 31 \<longrightarrow>
            (let r1 = stepper_update now s;
                 r2 = stepper_update now (snd r1);
                 r3 = stepper_update now (snd r2);
                 r4 = stepper_update now (snd r3);
                 r5 = stepper_update now (snd r4);
                 r6 = stepper_update now (snd r5)
             in map fst [r1, r2, r3, r4, r5, r6] = [True, True, True, True, False, False] \<and>
                map (\<lambda>r. step_count (snd r)) [r1, r2, r3, r4, r5, r6] =
                  map (\<lambda>k. step_count s + k) [1, 2, 3, 4, 5, 5] \<and>
                map (\<lambda>r. pattern_writes (snd r)) [r1, r2, r3, r4, r5, r6] =
                  map (\<lambda>k. pattern_writes s + k) [1, 2, 3, 4, 5, 5]))"
proof -
  let ?r = "stepper_update_ramp now s"
  note adv = poll_advances [OF assms(1,2,3,4,5,6)]
  have eq: "stepper_update now s =
              (1 < q, (step ?r True)\<lparr>last_step := last_step s + us_per_step ?r\<rparr>)"
    using poll_one_step [OF assms(1,2,3,5)] assms(4) by simp
  have a: "snd (stepper_update now s) =
             (step ?r True)\<lparr>last_step := last_step s + us_per_step ?r\<rparr>"
    and d: "fst (stepper_update now s) = (1 < q)"
    by (simp_all add: eq)
  have c: "unat (last_step (snd (stepper_update now s))) =
             unat (last_step s) + unat (us_per_step ?r)"
    using backlog_shrinks(2) [OF assms(2,1)] assms(3,4) by (simp add: eq)
  have e: "(let r1 = stepper_update now s;
                 r2 = stepper_update now (snd r1);
                 r3 = stepper_update now (snd r2);
                 r4 = stepper_update now (snd r3);
                 r5 = stepper_update now (snd r4);
                 r6 = stepper_update now (snd r5)
             in map fst [r1, r2, r3, r4, r5, r6] = [True, True, True, True, False, False] \<and>
                map (\<lambda>r. step_count (snd r)) [r1, r2, r3, r4, r5, r6] =
                  map (\<lambda>k. step_count s + k) [1, 2, 3, 4, 5, 5] \<and>
                map (\<lambda>r. pattern_writes (snd r)) [r1, r2, r3, r4, r5, r6] =
                  map (\<lambda>k. pattern_writes s + k) [1, 2, 3, 4, 5, 5])"
    if st: "steady s" and q5: "q = 5" and hs: "held_or_stepping s"
      and n1: "1 \<le> num_pins s" and n2: "num_pins s \<le> 31"
  proof -
    let ?p = "us_per_step_target s"
    have p: "us_per_step ?r = ?p" using steady_ramp(1) [OF st] .
    define s1 where "s1 = snd (stepper_update now s)"
    define s2 where "s2 = snd (stepper_update now s1)"
    define s3 where "s3 = snd (stepper_update now s2)"
    define s4 where "s4 = snd (stepper_update now s3)"
    define s5 where "s5 = snd (stepper_update now s4)"
    have b: "(5::nat) < 2 ^ 31" "(4::nat) < 2 ^ 31" "(3::nat) < 2 ^ 31" "(2::nat) < 2 ^ 31"
      "(1::nat) < 2 ^ 31" "(0::nat) < 2 ^ 31"
      by simp_all
    have q0: "5 = unat (now - last_step s) div unat ?p"
      using assms(3) q5 p by simp
    note P1 = steady_poll [OF st assms(2) q0 b(1), folded s1_def]
    note H1 = steady_poll_held [OF st assms(2) q0 b(1) hs n1 n2, folded s1_def]
    have q1: "4 = unat (now - last_step s1) div unat (us_per_step_target s1)"
      using P1(4,6) by simp
    note P2 = steady_poll [OF P1(3) P1(5) q1 b(2), folded s2_def]
    note H2 = steady_poll_held [OF P1(3) P1(5) q1 b(2) H1(2,3,4), folded s2_def]
    have q2: "3 = unat (now - last_step s2) div unat (us_per_step_target s2)"
      using P2(4,6) P1(4) by simp
    note P3 = steady_poll [OF P2(3) P2(5) q2 b(3), folded s3_def]
    note H3 = steady_poll_held [OF P2(3) P2(5) q2 b(3) H2(2,3,4), folded s3_def]
    have q3: "2 = unat (now - last_step s3) div unat (us_per_step_target s3)"
      using P3(4,6) P2(4) P1(4) by simp
    note P4 = steady_poll [OF P3(3) P3(5) q3 b(4), folded s4_def]
    note H4 = steady_poll_held [OF P3(3) P3(5) q3 b(4) H3(2,3,4), folded s4_def]
    have q4: "1 = unat (now - last_step s4) div unat (us_per_step_target s4)"
      using P4(4,6) P3(4) P2(4) P1(4) by simp
    note P5 = steady_poll [OF P4(3) P4(5) q4 b(5), folded s5_def]
    note H5 = steady_poll_held [OF P4(3) P4(5) q4 b(5) H4(2,3,4), folded s5_def]
    have q5': "0 = unat (now - last_step s5) div unat (us_per_step_target s5)"
      using P5(4,6) P4(4) P3(4) P2(4) P1(4) by simp
    note P6 = steady_poll [OF P5(3) P5(5) q5' b(6)]
    note H6 = steady_poll_held [OF P5(3) P5(5) q5' b(6) H5(2,3,4)]
    have f: "fst (stepper_update now s)" "fst (stepper_update now s1)"
      "fst (stepper_update now s2)" "fst (stepper_update now s3)"
      "\<not> fst (stepper_update now s4)" "\<not> fst (stepper_update now s5)"
      using P1(1) P2(1) P3(1) P4(1) P5(1) P6(1) by simp_all
    have w: "pattern_writes s1 = pattern_writes s + 1"
      "pattern_writes s2 = pattern_writes s + 2"
      "pattern_writes s3 = pattern_writes s + 3"
      "pattern_writes s4 = pattern_writes s + 4"
      "pattern_writes s5 = pattern_writes s + 5"
      "pattern_writes (snd (stepper_update now s5)) = pattern_writes s + 5"
      using P1(2) P2(2) P3(2) P4(2) P5(2) P6(2) by simp_all
    have k: "step_count s1 = step_count s + 1"
      "step_count s2 = step_count s + 2"
      "step_count s3 = step_count s + 3"
      "step_count s4 = step_count s + 4"
      "step_count s5 = step_count s + 5"
      "step_count (snd (stepper_update now s5)) = step_count s + 5"
      using H1(1) H2(1) H3(1) H4(1) H5(1) H6(1) by simp_all
    show ?thesis
      unfolding Let_def using f w k
      by (simp add: s1_def [symmetric] s2_def [symmetric] s3_def [symmetric]
          s4_def [symmetric] s5_def [symmetric])
  qed
  show ?thesis using adv a c d e by blast
qed

theorem poll_takes_one_step_witness:
  "us_per_step (stepper_update_ramp 13503 cruising_motor) \<noteq> 0 \<and>
   last_step cruising_motor \<le> 13503 \<and>
   (5::nat) = unat (13503 - last_step cruising_motor)
                div unat (us_per_step (stepper_update_ramp 13503 cruising_motor)) \<and>
   mask_main cruising_motor \<noteq> 0 \<and>
   steady cruising_motor \<and> held_or_stepping cruising_motor \<and>
   1 \<le> num_pins cruising_motor \<and> num_pins cruising_motor \<le> 31 \<and>
   fst (stepper_update 13503 cruising_motor) \<and>
   step_count (snd (stepper_update 13503 cruising_motor)) = 1 \<and>
   half_mask (snd (stepper_update 13503 cruising_motor)) = 8 \<and>
   mask_main (snd (stepper_update 13503 cruising_motor)) = 1 \<and>
   pattern_writes (snd (stepper_update 13503 cruising_motor)) = 2 \<and>
   unat (last_step (snd (stepper_update 13503 cruising_motor))) = 3500 \<and>
   (let r1 = stepper_update 13503 cruising_motor;
        r2 = stepper_update 13503 (snd r1);
        r3 = stepper_update 13503 (snd r2);
        r4 = stepper_update 13503 (snd r3);
        r5 = stepper_update 13503 (snd r4);
        r6 = stepper_update 13503 (snd r5)
    in map fst [r1, r2, r3, r4, r5, r6] = [True, True, True, True, False, False] \<and>
       map (\<lambda>r. step_count (snd r)) [r1, r2, r3, r4, r5, r6] = [1, 2, 3, 4, 5, 5] \<and>
       map (\<lambda>r. pattern_writes (snd r)) [r1, r2, r3, r4, r5, r6] = [2, 3, 4, 5, 6, 6])"
proof -
  have h: "us_per_step (stepper_update_ramp 13503 cruising_motor) \<noteq> 0"
    "last_step cruising_motor \<le> 13503"
    "(5::nat) = unat (13503 - last_step cruising_motor)
                div unat (us_per_step (stepper_update_ramp 13503 cruising_motor))"
    "(1::nat) \<le> 5" "(5::nat) < 2 ^ 31" "mask_main cruising_motor \<noteq> 0"
    by (simp_all add: cruising_ramp cruising_fields)
  have st: "steady cruising_motor"
    by (simp add: steady_def cruising_fields)
  have n: "1 \<le> num_pins cruising_motor" "num_pins cruising_motor \<le> 31"
    by (simp_all add: cruising_fields)
  have m: "step_mask 1 True 4 = 8"
    by (simp add: step_mask_def)
  note one = poll_takes_one_step [OF h]
  have g: "step_count (snd (stepper_update 13503 cruising_motor)) = step_count cruising_motor + 1"
    "(if mode cruising_motor \<noteq> STEPPER_MODE_HALF_STEP \<or> odd (unat (step_count cruising_motor))
      then mask_main (snd (stepper_update 13503 cruising_motor)) =
             step_mask (mask_main cruising_motor) True (num_pins cruising_motor) \<and>
           half_mask (snd (stepper_update 13503 cruising_motor)) = half_mask cruising_motor
      else half_mask (snd (stepper_update 13503 cruising_motor)) =
             step_mask (half_mask cruising_motor) True (num_pins cruising_motor) \<and>
           mask_main (snd (stepper_update 13503 cruising_motor)) = mask_main cruising_motor)"
    "pattern_writes (snd (stepper_update 13503 cruising_motor)) = pattern_writes cruising_motor + 1"
    "unat (last_step (snd (stepper_update 13503 cruising_motor))) =
       unat (last_step cruising_motor) +
       unat (us_per_step (stepper_update_ramp 13503 cruising_motor))"
    "fst (stepper_update 13503 cruising_motor) = ((1::nat) < 5)"
    using one by blast+
  have first: "fst (stepper_update 13503 cruising_motor)"
    "step_count (snd (stepper_update 13503 cruising_motor)) = 1"
    "half_mask (snd (stepper_update 13503 cruising_motor)) = 8"
    "mask_main (snd (stepper_update 13503 cruising_motor)) = 1"
    "pattern_writes (snd (stepper_update 13503 cruising_motor)) = 2"
    "unat (last_step (snd (stepper_update 13503 cruising_motor))) = 3500"
    using g by (simp_all add: cruising_ramp cruising_fields cruising_writes m)
  have "let r1 = stepper_update 13503 cruising_motor;
            r2 = stepper_update 13503 (snd r1);
            r3 = stepper_update 13503 (snd r2);
            r4 = stepper_update 13503 (snd r3);
            r5 = stepper_update 13503 (snd r4);
            r6 = stepper_update 13503 (snd r5)
        in map fst [r1, r2, r3, r4, r5, r6] = [True, True, True, True, False, False] \<and>
           map (\<lambda>r. step_count (snd r)) [r1, r2, r3, r4, r5, r6] =
             map (\<lambda>k. step_count cruising_motor + k) [1, 2, 3, 4, 5, 5] \<and>
           map (\<lambda>r. pattern_writes (snd r)) [r1, r2, r3, r4, r5, r6] =
             map (\<lambda>k. pattern_writes cruising_motor + k) [1, 2, 3, 4, 5, 5]"
    using one st cruising_reachable n by blast
  then have six: "let r1 = stepper_update 13503 cruising_motor;
            r2 = stepper_update 13503 (snd r1);
            r3 = stepper_update 13503 (snd r2);
            r4 = stepper_update 13503 (snd r3);
            r5 = stepper_update 13503 (snd r4);
            r6 = stepper_update 13503 (snd r5)
        in map fst [r1, r2, r3, r4, r5, r6] = [True, True, True, True, False, False] \<and>
           map (\<lambda>r. step_count (snd r)) [r1, r2, r3, r4, r5, r6] = [1, 2, 3, 4, 5, 5] \<and>
           map (\<lambda>r. pattern_writes (snd r)) [r1, r2, r3, r4, r5, r6] = [2, 3, 4, 5, 6, 6]"
    by (simp add: cruising_writes cruising_fields Let_def)
  show ?thesis
    using h(1,2,3,6) st cruising_reachable n first six by (intro conjI)
qed

text \<open>
  Claim C1 as stated fails when the count of elapsed intervals does not fit the \<open>int\<close>
  it is stored in. The motor cruises at 2500 us per step with \<open>last_step = 1000\<close>; at
  the clock reading \<open>1000 + 2500 * 2^32\<close>, \<open>2^32\<close> whole intervals have elapsed, the
  quotient is cut to the \<open>int\<close> 0, and the poll takes no step and leaves the state as it
  was.
\<close>

theorem poll_after_2_32_intervals_takes_no_step:
  "us_per_step (stepper_update_ramp 10737418241000 cruising_motor) \<noteq> 0 \<and>
   unat (10737418241000 - last_step cruising_motor)
     div unat (us_per_step (stepper_update_ramp 10737418241000 cruising_motor)) = 4294967296 \<and>
   stepper_update 10737418241000 cruising_motor = (False, cruising_motor)"
  by (simp add: cruising_ramp cruising_fields stepper_update_def stepper_update_clock_def
      word_sless_alt)

text \<open>
  On a braked motor the step of a poll is the branch \<open>if (!s->mask)\<close> of \<open>step\<close>: it
  re-establishes the hold pattern, rotates nothing and does not count. The braked
  cruising motor polled at 13503 returns true (five intervals elapsed) with \<open>step_count\<close>
  unchanged and both masks set to 1.
\<close>

lemma braked_fields:
  "us_accel (stepper_brake s) = us_accel s"
  "us_per_step_target (stepper_brake s) = us_per_step_target s"
  "us_per_step (stepper_brake s) = us_per_step s"
  "last_step (stepper_brake s) = last_step s"
  "step_count (stepper_brake s) = step_count s"
  "mode (stepper_brake s) = mode s"
  "mask_main (stepper_brake s) = 0" "half_mask (stepper_brake s) = 0"
  by (simp_all add: stepper_brake_def)

lemma poll_on_braked_motor_holds:
  "fst (stepper_update 13503 (stepper_brake cruising_motor)) \<and>
   step_count (snd (stepper_update 13503 (stepper_brake cruising_motor))) =
     step_count (stepper_brake cruising_motor) \<and>
   mask_main (stepper_brake cruising_motor) = 0 \<and>
   half_mask (stepper_brake cruising_motor) = 0 \<and>
   mask_main (snd (stepper_update 13503 (stepper_brake cruising_motor))) = 1 \<and>
   half_mask (snd (stepper_update 13503 (stepper_brake cruising_motor))) = 1"
proof -
  let ?b = "stepper_brake cruising_motor"
  have r: "stepper_update_ramp 13503 ?b = ?b"
    by (simp add: stepper_update_ramp_def braked_fields cruising_fields)
  show ?thesis
    by (simp add: stepper_update_def r stepper_update_clock_def braked_fields cruising_fields
        step_def stepper_hold_def word_sless_alt)
qed




subsection \<open>The ramp controller\<close>

lemma uint_small64: "unat a < 2 ^ 63 \<Longrightarrow> sint a = uint a" for a :: u64
  by (metis sint_small64 uint_nat)

lemma uint_less: "unat a < n \<Longrightarrow> uint a < int n" for a :: u64
  by (simp only: uint_nat of_nat_less_iff)

lemma MIN_s64_small:
  assumes "unat a < 2 ^ 63" and "unat b < 2 ^ 63"
  shows "uint (MIN_s64 a b) = min (uint a) (uint b)"
  using assms by (simp add: MIN_s64_def word_sless_alt uint_small64 min_def)

lemma add_small:
  fixes u w :: u64
  assumes "unat u < 2 ^ 62" and "unat w < 2 ^ 31"
  shows "unat (u + w) = unat u + unat w" and "unat (u + w) < 2 ^ 63"
proof -
  have "unat u + unat w < 2 ^ 62 + 2 ^ 31" using assms by (rule add_strict_mono)
  then have lt: "unat u + unat w < 2 ^ 63" by simp
  then have "unat u + unat w < 2 ^ LENGTH(64)" by simp
  then show "unat (u + w) = unat u + unat w" by (rule unat_add_lem [THEN iffD1])
  then show "unat (u + w) < 2 ^ 63" using lt by simp
qed

lemma MAX_s64_sub:
  fixes u w t :: u64
  assumes "unat u < 2 ^ 62" and "unat w < 2 ^ 31" and "unat t < 2 ^ 62"
  shows "uint (MAX_s64 (u - w) t) = max (uint u - uint w) (uint t)"
proof -
  have u63: "unat u < 2 ^ 63" and w63: "unat w < 2 ^ 63" and t63: "unat t < 2 ^ 63"
    using assms by simp_all
  have su: "sint u = uint u" and sw: "sint w = uint w" and st: "sint t = uint t"
    using u63 w63 t63 by (simp_all add: uint_small64)
  have ub: "uint u < 2 ^ 62" and wb: "uint w < 2 ^ 31"
    using uint_less [OF assms(1)] uint_less [OF assms(2)] by simp_all
  have u0: "0 \<le> uint u" and w0: "0 \<le> uint w" and t0: "0 \<le> uint t"
    by simp_all
  have pw: "(2::int) ^ 62 = 4611686018427387904" "(2::int) ^ 31 = 2147483648"
    "(2::int) ^ 63 = 9223372036854775808"
    by simp_all
  have lo: "- (2 ^ 63) \<le> uint u - uint w" and hi: "uint u - uint w < 2 ^ 63"
    using ub wb u0 w0 unfolding pw by linarith+
  have sd: "sint (u - w) = uint u - uint w"
    using signed_take_bit_int_eq_self [OF lo hi] by (simp add: sint_word_diff su sw)
  show ?thesis
  proof (cases "uint t < uint u - uint w")
    case True
    then have "uint w \<le> uint u"
      using t0 by linarith
    then have "w \<le> u"
      by (simp only: word_le_def)
    then have "uint (u - w) = uint u - uint w"
      by (simp add: uint_sub_if' word_le_def)
    then show ?thesis using True by (simp add: MAX_s64_def word_sless_alt sd st)
  next
    case False
    then show ?thesis by (simp add: MAX_s64_def word_sless_alt sd st)
  qed
qed

lemma ramp_whole_units:
  assumes a: "us_accel s \<noteq> 0"
    and nh: "\<not> (us_per_step_target s = 0 \<and>
                (us_per_step s = max_us_per_step s \<or> us_per_step s = 0))"
    and ns: "\<not> (us_per_step_target s \<noteq> 0 \<and> us_per_step s = 0)"
    and le: "last_accel_step s \<le> now"
    and units: "units = unat (now - last_accel_step s) div unat (us_accel s)"
    and tgt: "target = (if us_per_step_target s \<noteq> 0 then us_per_step_target s
                        else max_us_per_step s)"
    and b1: "units < 2 ^ 31"
  shows "stepper_update_ramp now s =
           s\<lparr>us_per_step :=
                (if us_per_step s < target
                 then MIN_s64 (us_per_step s + of_nat units) target
                 else if target < us_per_step s
                 then MAX_s64 (us_per_step s - of_nat units) target
                 else us_per_step s),
              last_accel_step := last_accel_step s + us_accel s * of_nat units\<rparr>"
proof -
  define w where "w = (now - last_accel_step s) div us_accel s"
  have w: "unat w = units" using units by (simp add: w_def unat_div)
  then have wn: "of_nat units = w" by (metis of_nat_unat ucast_id)
  have small: "unat w < 2 ^ 31" using b1 w by simp
  have sc: "(scast (ucast w :: u32) :: u64) = w"
    using small by (rule int_cut(3))
  have c1: "(us_per_step_target s = 0 \<and>
             (us_per_step s = max_us_per_step s \<or> us_per_step s = 0)) = False"
    using nh by blast
  have c2: "(us_per_step_target s \<noteq> 0 \<and> us_per_step s = 0) = False"
    using ns by blast
  have "stepper_update_ramp now s =
           s\<lparr>us_per_step :=
                (if us_per_step s < target
                 then MIN_s64 (us_per_step s + w) target
                 else if target < us_per_step s
                 then MAX_s64 (us_per_step s - w) target
                 else us_per_step s),
              last_accel_step := last_accel_step s + us_accel s * w\<rparr>"
    unfolding stepper_update_ramp_def c1 c2 w_def [symmetric] tgt [symmetric] Let_def sc
    using a le by simp
  then show ?thesis unfolding wn .
qed

text \<open>
  Claim C3, as the code has it. In a poll with ramping enabled in which neither the
  stopped-hold nor the launch-seeding case applies and the clock has reached
  \<open>last_accel_step\<close>, let \<open>units\<close> be the floor of the elapsed time over \<open>us_accel\<close> and
  \<open>target\<close> the effective target (the target interval, or \<open>max_us_per_step\<close> when the
  target is 0). If \<open>units < 2^31\<close> and both intervals are below \<open>2^62\<close>, then the current
  interval moves towards the target by exactly \<open>units\<close>, stopping at the target
  (the minimum of \<open>us_per_step + units\<close> and \<open>target\<close> from below, the maximum of
  \<open>us_per_step - units\<close> and \<open>target\<close> from above), \<open>last_accel_step\<close> advances by exactly
  \<open>units * us_accel\<close> without wrapping, and what is left between it and the clock is the
  remainder of the elapsed time modulo \<open>us_accel\<close>. The other ramp parameters are kept.
\<close>

theorem ramp_moves_by_whole_units:
  assumes a: "us_accel s \<noteq> 0"
    and nh: "\<not> (us_per_step_target s = 0 \<and>
                (us_per_step s = max_us_per_step s \<or> us_per_step s = 0))"
    and ns: "\<not> (us_per_step_target s \<noteq> 0 \<and> us_per_step s = 0)"
    and le: "last_accel_step s \<le> now"
    and units: "units = unat (now - last_accel_step s) div unat (us_accel s)"
    and tgt: "target = (if us_per_step_target s \<noteq> 0 then us_per_step_target s
                        else max_us_per_step s)"
    and b1: "units < 2 ^ 31" and b2: "unat target < 2 ^ 62"
    and b3: "unat (us_per_step s) < 2 ^ 62"
  shows "uint (us_per_step (snd (stepper_update now s))) =
           (if us_per_step s < target
            then min (uint (us_per_step s) + int units) (uint target)
            else max (uint (us_per_step s) - int units) (uint target)) \<and>
         unat (last_accel_step (snd (stepper_update now s))) =
           unat (last_accel_step s) + units * unat (us_accel s) \<and>
         last_accel_step (snd (stepper_update now s)) \<le> now \<and>
         unat (now - last_accel_step (snd (stepper_update now s))) =
           unat (now - last_accel_step s) mod unat (us_accel s) \<and>
         us_accel (snd (stepper_update now s)) = us_accel s \<and>
         us_per_step_target (snd (stepper_update now s)) = us_per_step_target s \<and>
         max_us_per_step (snd (stepper_update now s)) = max_us_per_step s"
proof -
  let ?r = "stepper_update_ramp now s"
  let ?u = "us_per_step s"
  let ?n = "of_nat units :: u64"
  note r = ramp_whole_units [OF a nh ns le units tgt b1]
  have un: "unat ?n = units"
    using b1 by (simp add: unat_of_nat take_bit_nat_eq_self)
  have n31: "unat ?n < 2 ^ 31" using b1 un by simp
  have uin: "uint ?n = int units" using un by (metis uint_nat)
  have interval: "uint (us_per_step ?r) =
           (if ?u < target then min (uint ?u + int units) (uint target)
            else max (uint ?u - int units) (uint target))"
  proof (cases "?u < target")
    case True
    have s: "unat (?u + ?n) = unat ?u + units" "unat (?u + ?n) < 2 ^ 63"
      using add_small [OF b3 n31] by (simp_all add: un)
    have "uint (?u + ?n) = uint ?u + int units"
      using s(1) by (metis uint_nat of_nat_add)
    moreover have "unat target < 2 ^ 63" using b2 by simp
    ultimately have "uint (MIN_s64 (?u + ?n) target) = min (uint ?u + int units) (uint target)"
      using MIN_s64_small [OF s(2)] by simp
    then show ?thesis using True by (simp add: r)
  next
    case False
    show ?thesis
    proof (cases "target < ?u")
      case True
      have "uint (MAX_s64 (?u - ?n) target) = max (uint ?u - int units) (uint target)"
        using MAX_s64_sub [OF b3 n31 b2] by (simp add: uin)
      then show ?thesis using True False by (simp add: r)
    next
      case eq: False
      then have "?u = target" using False by simp
      then show ?thesis using False by (simp add: r)
    qed
  qed
  note sp = elapsed_split [OF le a units order_refl]
  have anchor: "unat (last_accel_step ?r) = unat (last_accel_step s) + units * unat (us_accel s)"
    using sp(2) by (simp add: r mult.commute)
  have before: "last_accel_step ?r \<le> now"
    using sp(3) by (simp add: r)
  have "unat (now - last_accel_step ?r) =
          unat (now - last_accel_step s) - unat (us_accel s) * units"
    using sp(4) by (simp add: r)
  then have rest: "unat (now - last_accel_step ?r) =
          unat (now - last_accel_step s) mod unat (us_accel s)"
    unfolding units by (simp add: minus_mult_div_eq_mod)
  have frame: "us_accel ?r = us_accel s" "us_per_step_target ?r = us_per_step_target s"
    "max_us_per_step ?r = max_us_per_step s"
    by (simp_all add: r)
  show ?thesis
    using interval anchor before rest frame
    by (simp add: stepper_update_def)
qed

lemma ramping_fields:
  "us_accel ramping_motor = 41" "us_per_step_target ramping_motor = 2500"
  "max_us_per_step ramping_motor = 30000" "us_per_step ramping_motor = 30000"
  "last_accel_step ramping_motor = 1000" "last_step ramping_motor = 1000"
  by (simp_all add: ramping_motor_def ramped_motor_def)

theorem ramp_moves_by_whole_units_witness:
  "us_accel ramping_motor \<noteq> 0 \<and>
   \<not> (us_per_step_target ramping_motor = 0 \<and>
      (us_per_step ramping_motor = max_us_per_step ramping_motor \<or>
       us_per_step ramping_motor = 0)) \<and>
   \<not> (us_per_step_target ramping_motor \<noteq> 0 \<and> us_per_step ramping_motor = 0) \<and>
   last_accel_step ramping_motor \<le> 1417 \<and>
   (10::nat) = unat (1417 - last_accel_step ramping_motor) div unat (us_accel ramping_motor) \<and>
   uint (us_per_step (snd (stepper_update 1417 ramping_motor))) = 29990 \<and>
   unat (last_accel_step (snd (stepper_update 1417 ramping_motor))) = 1410 \<and>
   unat (1417 - last_accel_step (snd (stepper_update 1417 ramping_motor))) = 7"
proof -
  have h: "us_accel ramping_motor \<noteq> 0"
    "\<not> (us_per_step_target ramping_motor = 0 \<and>
      (us_per_step ramping_motor = max_us_per_step ramping_motor \<or>
       us_per_step ramping_motor = 0))"
    "\<not> (us_per_step_target ramping_motor \<noteq> 0 \<and> us_per_step ramping_motor = 0)"
    "last_accel_step ramping_motor \<le> 1417"
    "(10::nat) = unat (1417 - last_accel_step ramping_motor) div unat (us_accel ramping_motor)"
    "(2500::u64) = (if us_per_step_target ramping_motor \<noteq> 0
                    then us_per_step_target ramping_motor
                    else max_us_per_step ramping_motor)"
    "(10::nat) < 2 ^ 31" "unat (2500::u64) < 2 ^ 62"
    "unat (us_per_step ramping_motor) < 2 ^ 62"
    by (simp_all add: ramping_fields)
  show ?thesis
    using h(1-5) ramp_moves_by_whole_units [OF h]
    by (simp add: ramping_fields)
qed

text \<open>
  Claim C3 as stated fails when the count of elapsed units does not fit the \<open>int\<close> it is
  stored in. The motor ramps from 30000 us towards 2500 us per step with a unit of 41 us
  and \<open>last_accel_step = 1000\<close>; at the clock reading \<open>1000 + 41 * 2^32\<close>, \<open>2^32\<close> whole
  units have elapsed, \<open>num_steps\<close> is cut to 0, and the poll neither moves the current
  interval nor advances \<open>last_accel_step\<close>.
\<close>

theorem ramp_after_2_32_units_does_not_move:
  "us_accel ramping_motor \<noteq> 0 \<and> us_per_step_target ramping_motor = 2500 \<and>
   us_per_step ramping_motor = 30000 \<and>
   last_accel_step ramping_motor \<le> 176093660136 \<and>
   unat (176093660136 - last_accel_step ramping_motor) div unat (us_accel ramping_motor)
     = 4294967296 \<and>
   us_per_step (snd (stepper_update 176093660136 ramping_motor)) = 30000 \<and>
   last_accel_step (snd (stepper_update 176093660136 ramping_motor)) = 1000"
  by (simp add: ramping_fields stepper_update_def stepper_update_ramp_def Let_def
      MIN_s64_def MAX_s64_def word_sless_alt)

end
